theory Spec2Isabelle
  imports Main "HOL-Library.Word" "HOL-Library.Multiset"
begin

section \<open>Collaborators declared outside the translated files\<close>

text \<open>
  The three translated files are \<^verbatim>\<open>tkvsdatabasepool.cpp\<close>, \<^verbatim>\<open>tthreadapplicationserver.cpp\<close>
  and \<^verbatim>\<open>tcachesqlitestore.cpp\<close>. The stack template, the connection handle class and the
  application object are declared in headers that are not among them; the little of
  their behaviour that the pool relies on is written down here.
\<close>

datatype error = RuntimeException string

text \<open>
  Modelled from the spec: \<^verbatim>\<open>TStack::push\<close> of the stack template (the NamedStack primitive,
  a capacity-less LIFO). The head of the list is the top of the stack.
\<close>

definition stack_push :: "'a \<Rightarrow> 'a list \<Rightarrow> 'a list" where
  "stack_push x st = x # st"

text \<open>
  Modelled from the spec: \<^verbatim>\<open>TStack::pop\<close>, which reports whether an element was there and
  hands out the top one.
\<close>

fun stack_pop :: "'a list \<Rightarrow> ('a \<times> 'a list) option" where
  "stack_pop [] = None"
| "stack_pop (x # st) = Some (x, st)"

text \<open>
  Modelled from the spec: the entry that \<^verbatim>\<open>TKvsDatabase\<close> keeps for a connection (the
  Connection of the data model), created for a driver and either closed or open.
  \<open>hasDriver\<close> says whether a driver object could be created for the entry.
\<close>

record kvs_data =
  dataDriver :: string
  hasDriver :: bool
  opened :: bool

text \<open>
  Modelled from the spec: the handle class \<^verbatim>\<open>TKvsDatabase\<close> that callers hold, with its
  connection name, its driver name and \<^verbatim>\<open>isValid()\<close>.
\<close>

record TKvsDatabase =
  connectionName :: string
  driverName :: string
  isValid :: bool

text \<open>Modelled from the spec: the default-constructed \<^verbatim>\<open>TKvsDatabase()\<close>, an invalid object.\<close>

definition TKvsDatabase_invalid :: TKvsDatabase where
  "TKvsDatabase_invalid = \<lparr>connectionName = [], driverName = [], isValid = False\<rparr>"

text \<open>
  Modelled from the spec: the process-wide table of \<^verbatim>\<open>TKvsDatabase\<close>, in which a connection
  is identified by its unique name.
\<close>

type_synonym kvs_table = "string \<rightharpoonup> kvs_data"

text \<open>
  Modelled from the spec: \<^verbatim>\<open>TKvsDatabase::database(name)\<close>, the handle of the connection
  registered under a name; it is valid when the entry has a driver.
\<close>

definition kvs_database :: "kvs_table \<Rightarrow> string \<Rightarrow> TKvsDatabase" where
  "kvs_database m name =
     (case m name of
        None \<Rightarrow> \<lparr>connectionName = name, driverName = [], isValid = False\<rparr>
      | Some d \<Rightarrow> \<lparr>connectionName = name, driverName = dataDriver d, isValid = hasDriver d\<rparr>)"

text \<open>Modelled from the spec: \<^verbatim>\<open>TKvsDatabase::isOpen()\<close>, whether the connection is open now.\<close>

definition isOpen :: "kvs_table \<Rightarrow> TKvsDatabase \<Rightarrow> bool" where
  "isOpen m db =
     (case m (connectionName db) of None \<Rightarrow> False | Some d \<Rightarrow> hasDriver d \<and> opened d)"

text \<open>
  Modelled from the spec: \<^verbatim>\<open>TKvsDatabase::open()\<close>, the attempt to open the connection.
  Whether the backend accepts the connection is not decided by the pool, so it is a
  parameter: \<open>openOk name\<close> is the answer of the backend at this call.
\<close>

definition kvs_open :: "(string \<Rightarrow> bool) \<Rightarrow> kvs_table \<Rightarrow> TKvsDatabase \<Rightarrow> bool \<times> kvs_table" where
  "kvs_open openOk m db =
     (case m (connectionName db) of
        None \<Rightarrow> (False, m)
      | Some d \<Rightarrow>
          if hasDriver d \<and> openOk (connectionName db)
          then (True, m(connectionName db \<mapsto> d\<lparr>opened := True\<rparr>))
          else (False, m))"

text \<open>Modelled from the spec: \<^verbatim>\<open>TKvsDatabase::close()\<close>, after which the connection is closed.\<close>

definition kvs_close :: "kvs_table \<Rightarrow> string \<Rightarrow> kvs_table" where
  "kvs_close m name =
     (case m name of None \<Rightarrow> m | Some d \<Rightarrow> m(name \<mapsto> d\<lparr>opened := False\<rparr>))"

text \<open>
  Modelled from the spec: the application object \<^verbatim>\<open>Tf::app()\<close> with the configuration it
  serves: which backends are enabled and the configured number of threads. To this comes
  \<open>createDriver\<close>, which says for which driver keys a driver object can be created.
\<close>

record app =
  isMongoDbAvailable :: bool
  isRedisAvailable :: bool
  maxNumberOfThreadsPerAppServer :: int
  createDriver :: "string \<Rightarrow> bool"

text \<open>
  Modelled from the spec: \<^verbatim>\<open>TKvsDatabase::addDatabase(driver, name)\<close>, the reservation of a
  connection name: it registers a closed connection under the name, replacing what was
  registered there, and returns its handle.
\<close>

definition addDatabase :: "app \<Rightarrow> string \<Rightarrow> string \<Rightarrow> kvs_table \<Rightarrow> TKvsDatabase \<times> kvs_table" where
  "addDatabase a drv name m =
     (let m' = m(name \<mapsto> \<lparr>dataDriver = drv, hasDriver = createDriver a drv, opened = False\<rparr>)
      in (kvs_database m' name, m'))"

text \<open>
  Modelled from the spec: the members of \<^verbatim>\<open>enum TKvsDatabase::Type\<close>, the numeric ids that
  index the per-type state of the pool.
\<close>

definition MongoDB :: int where "MongoDB = 0"
definition Redis :: int where "Redis = 1"

section \<open>sprintf for connection names\<close>

definition digit_char :: "nat \<Rightarrow> char" where
  "digit_char d =
     (if d = 0 then CHR ''0'' else if d = 1 then CHR ''1'' else if d = 2 then CHR ''2''
      else if d = 3 then CHR ''3'' else if d = 4 then CHR ''4'' else if d = 5 then CHR ''5''
      else if d = 6 then CHR ''6'' else if d = 7 then CHR ''7'' else if d = 8 then CHR ''8''
      else CHR ''9'')"

function show_nat :: "nat \<Rightarrow> string" where
  "show_nat n = (if n < 10 then [digit_char n] else show_nat (n div 10) @ [digit_char (n mod 10)])"
  by pat_completeness auto
termination
  by (relation "measure id") auto

declare show_nat.simps [simp del]

text \<open>\<^verbatim>\<open>%d\<close>\<close>

definition show_int :: "int \<Rightarrow> string" where
  "show_int i = (if i < 0 then CHR ''-'' # show_nat (nat (- i)) else show_nat (nat i))"

text \<open>\<^verbatim>\<open>%02d\<close>: at least two characters, padded with zeros.\<close>

definition show_int_02 :: "int \<Rightarrow> string" where
  "show_int_02 i =
     (if i < 0 then show_int i
      else replicate (2 - length (show_nat (nat i))) CHR ''0'' @ show_nat (nat i))"

text \<open>\<^verbatim>\<open>QString().sprintf(CONN_NAME_FORMAT, type, i)\<close> with the format \<^verbatim>\<open>"kvs%02d_%d"\<close>.\<close>

definition conn_name :: "int \<Rightarrow> int \<Rightarrow> string" where
  "conn_name type i = ''kvs'' @ show_int_02 type @ ''_'' @ show_int i"

section \<open>tkvsdatabasepool.cpp\<close>

text \<open>\<^verbatim>\<open>KvsTypeHash\<close>: a \<^verbatim>\<open>QMap\<close>, iterated in key order.\<close>

definition kvsTypeHash :: "(string \<times> int) list" where
  "kvsTypeHash = [(''MONGODB'', MongoDB), (''REDIS'', Redis)]"

definition kvsTypeHash_value :: "string \<Rightarrow> int \<Rightarrow> int" where
  "kvsTypeHash_value key dflt = (case map_of kvsTypeHash key of None \<Rightarrow> dflt | Some v \<Rightarrow> v)"

definition kvsTypeHash_count :: int where
  "kvsTypeHash_count = int (length kvsTypeHash)"

text \<open>
  The pool object. The three arrays are indexed by the type; \<open>initialised\<close> stands for
  \<^verbatim>\<open>cachedDatabase\<close> being a non-null pointer; \<open>timer\<close> holds the interval in milliseconds
  once the timer is started. The table of \<^verbatim>\<open>TKvsDatabase\<close> is static data of that class and
  is carried along in \<open>databaseMap\<close>.
\<close>

record TKvsDatabasePool =
  initialised :: bool
  cachedDatabase :: "int \<Rightarrow> string list"
  lastCachedTime :: "int \<Rightarrow> 32 word"
  availableNames :: "int \<Rightarrow> string list"
  maxConnects :: int
  timer :: "nat option"
  databaseMap :: kvs_table

definition isKvsAvailable :: "app \<Rightarrow> int \<Rightarrow> error + bool" where
  "isKvsAvailable a type =
     (if type = MongoDB then Inr (isMongoDbAvailable a)
      else if type = Redis then Inr (isRedisAvailable a)
      else Inl (RuntimeException ''No such KVS type''))"

text \<open>
  The inner loop of \<^verbatim>\<open>init\<close>, from index \<open>i\<close> on. \<^verbatim>\<open>setDatabaseSettings\<close> only copies host,
  port and credentials into the connection and its result is ignored, so it leaves no
  trace here.
\<close>

function init_names :: "app \<Rightarrow> string \<Rightarrow> int \<Rightarrow> int \<Rightarrow> int \<Rightarrow> kvs_table \<times> string list \<Rightarrow> kvs_table \<times> string list" where
  "init_names a drv type n i (m, stack) =
     (if i < n then
        (case addDatabase a drv (conn_name type i) m of
           (db, m') \<Rightarrow>
             if \<not> isValid db then (m', stack)
             else init_names a drv type n (i + 1) (m', stack_push (connectionName db) stack))
      else (m, stack))"
  by pat_completeness auto
termination
  by (relation "measure (\<lambda>(a, drv, type, n, i, ms). nat (n - i))") auto

declare init_names.simps [simp del]

text \<open>The outer loop of \<^verbatim>\<open>init\<close> over the entries of the type hash; the flag is \<^verbatim>\<open>aval\<close>.\<close>

fun init_types :: "app \<Rightarrow> (string \<times> int) list \<Rightarrow> bool \<times> TKvsDatabasePool \<Rightarrow> error + bool \<times> TKvsDatabasePool" where
  "init_types a [] (aval, s) = Inr (aval, s)"
| "init_types a ((drv, type) # rest) (aval, s) =
     (case isKvsAvailable a type of
        Inl e \<Rightarrow> Inl e
      | Inr False \<Rightarrow> init_types a rest (aval, s)
      | Inr True \<Rightarrow>
          (case init_names a drv type (maxConnects s) 0 (databaseMap s, availableNames s type) of
             (m', stack') \<Rightarrow>
               init_types a rest
                 (True, s\<lparr>availableNames := (availableNames s)(type := stack'), databaseMap := m'\<rparr>)))"

definition init :: "app \<Rightarrow> TKvsDatabasePool \<Rightarrow> error + TKvsDatabasePool" where
  "init a s =
     (if initialised s then Inr s
      else
        (case init_types a kvsTypeHash
                (False, s\<lparr>initialised := True, cachedDatabase := (\<lambda>_. []), availableNames := (\<lambda>_. [])\<rparr>) of
           Inl e \<Rightarrow> Inl e
         | Inr (aval, s') \<Rightarrow> Inr (if aval then s'\<lparr>timer := Some 10000\<rparr> else s')))"

text \<open>
  \<^verbatim>\<open>instance\<close>: the pool as constructed, with \<^verbatim>\<open>maxConnects\<close> set from the application, then
  initialised. What the fresh timestamp array and the connection table hold before is
  left open (\<open>lct0\<close>, \<open>m0\<close>).
\<close>

definition TKvsDatabasePool_new :: "(int \<Rightarrow> 32 word) \<Rightarrow> kvs_table \<Rightarrow> TKvsDatabasePool" where
  "TKvsDatabasePool_new lct0 m0 =
     \<lparr>initialised = False, cachedDatabase = (\<lambda>_. []), lastCachedTime = lct0,
      availableNames = (\<lambda>_. []), maxConnects = 0, timer = None, databaseMap = m0\<rparr>"

definition instance_pool :: "app \<Rightarrow> (int \<Rightarrow> 32 word) \<Rightarrow> kvs_table \<Rightarrow> error + TKvsDatabasePool" where
  "instance_pool a lct0 m0 =
     init a ((TKvsDatabasePool_new lct0 m0)\<lparr>maxConnects := maxNumberOfThreadsPerAppServer a\<rparr>)"

text \<open>
  The \<^verbatim>\<open>for (;;)\<close> loop of \<^verbatim>\<open>database\<close>. With both stacks empty the loop spins until another
  thread releases a connection; run on its own it never returns, which is the value \<open>None\<close>.
  \<^verbatim>\<open>moveToThread\<close> changes the thread affinity of the driver only.
\<close>

partial_function (option) database_loop :: "(string \<Rightarrow> bool) \<Rightarrow> int \<Rightarrow> TKvsDatabasePool \<Rightarrow> (TKvsDatabase \<times> TKvsDatabasePool) option" where
  "database_loop openOk type s =
     (case stack_pop (cachedDatabase s type) of
        Some (name, cache') \<Rightarrow>
          (if isOpen (databaseMap s) (kvs_database (databaseMap s) name)
           then Some (kvs_database (databaseMap s) name,
                      s\<lparr>cachedDatabase := (cachedDatabase s)(type := cache')\<rparr>)
           else database_loop openOk type
                  (s\<lparr>cachedDatabase := (cachedDatabase s)(type := cache'),
                     availableNames := (availableNames s)(type := stack_push name (availableNames s type))\<rparr>))
      | None \<Rightarrow>
          (case stack_pop (availableNames s type) of
             Some (name, stack') \<Rightarrow>
               (if isOpen (databaseMap s) (kvs_database (databaseMap s) name)
                then Some (kvs_database (databaseMap s) name,
                           s\<lparr>availableNames := (availableNames s)(type := stack')\<rparr>)
                else
                  (case kvs_open openOk (databaseMap s) (kvs_database (databaseMap s) name) of
                     (False, m') \<Rightarrow>
                       Some (TKvsDatabase_invalid,
                             s\<lparr>availableNames := (availableNames s)(type := stack'), databaseMap := m'\<rparr>)
                   | (True, m') \<Rightarrow>
                       Some (kvs_database (databaseMap s) name,
                             s\<lparr>availableNames := (availableNames s)(type := stack'), databaseMap := m'\<rparr>)))
           | None \<Rightarrow> database_loop openOk type s))"

declare database_loop.simps [code]

text \<open>
  \<^verbatim>\<open>database(type)\<close>: \<open>None\<close> when the call never returns, \<open>Some (Inl e)\<close> when it throws,
  \<open>Some (Inr (db, s'))\<close> when it returns the handle \<open>db\<close>.
\<close>

definition database :: "app \<Rightarrow> (string \<Rightarrow> bool) \<Rightarrow> int \<Rightarrow> TKvsDatabasePool \<Rightarrow> (error + TKvsDatabase \<times> TKvsDatabasePool) option" where
  "database a openOk type s =
     (case isKvsAvailable a type of
        Inl e \<Rightarrow> Some (Inl e)
      | Inr False \<Rightarrow> Some (Inr (TKvsDatabase_invalid, s))
      | Inr True \<Rightarrow> map_option Inr (database_loop openOk type s))"

text \<open>
  \<^verbatim>\<open>pool(database)\<close>, the release operation. \<open>now\<close> is the value of \<^verbatim>\<open>std::time(nullptr)\<close>; the
  cast to \<^verbatim>\<open>uint\<close> keeps its low 32 bits. The handle of the caller is the first component of
  the result.
\<close>

definition pool :: "int \<Rightarrow> TKvsDatabase \<Rightarrow> TKvsDatabasePool \<Rightarrow> error + TKvsDatabase \<times> TKvsDatabasePool" where
  "pool now db s =
     (if isValid db then
        (let type = kvsTypeHash_value (driverName db) (- 1) in
         if type < 0 then Inl (RuntimeException ''No such KVS type'')
         else Inr (TKvsDatabase_invalid,
                   s\<lparr>cachedDatabase := (cachedDatabase s)(type := stack_push (connectionName db) (cachedDatabase s type)),
                     lastCachedTime := (lastCachedTime s)(type := word_of_int now)\<rparr>))
      else Inr (TKvsDatabase_invalid, s))"

text \<open>
  The \<^verbatim>\<open>while\<close> loop of \<^verbatim>\<open>timerEvent\<close> for one type. The comparison is the unsigned 32-bit
  one of the source, subtraction included. The clock is read once per tick.
\<close>

function close_extra :: "int \<Rightarrow> int \<Rightarrow> TKvsDatabasePool \<Rightarrow> TKvsDatabasePool" where
  "close_extra now t s =
     (if lastCachedTime s t < word_of_int now - 30 then
        (case stack_pop (cachedDatabase s t) of
           None \<Rightarrow> s
         | Some (name, cache') \<Rightarrow>
             close_extra now t
               (s\<lparr>cachedDatabase := (cachedDatabase s)(t := cache'),
                  databaseMap := kvs_close (databaseMap s) name,
                  availableNames := (availableNames s)(t := stack_push name (availableNames s t))\<rparr>))
      else s)"
  by pat_completeness auto
termination
proof (relation "measure (\<lambda>(now, t, s). length (cachedDatabase s t))", goal_cases)
  case 1
  show ?case by simp
next
  case (2 now t s x2 x y)
  then show ?case by (cases "cachedDatabase s t") auto
qed

declare close_extra.simps [simp del]

text \<open>The \<^verbatim>\<open>for\<close> loop of \<^verbatim>\<open>timerEvent\<close> over the types from \<open>t\<close> up to the size of the hash.\<close>

function timer_types :: "app \<Rightarrow> int \<Rightarrow> int \<Rightarrow> TKvsDatabasePool \<Rightarrow> error + TKvsDatabasePool" where
  "timer_types a now t s =
     (if t < kvsTypeHash_count then
        (case isKvsAvailable a t of
           Inl e \<Rightarrow> Inl e
         | Inr False \<Rightarrow> timer_types a now (t + 1) s
         | Inr True \<Rightarrow> timer_types a now (t + 1) (close_extra now t s))
      else Inr s)"
  by pat_completeness auto
termination
  by (relation "measure (\<lambda>(a, now, t, s). nat (kvsTypeHash_count - t))") auto

declare timer_types.simps [simp del]

text \<open>
  \<^verbatim>\<open>timerEvent\<close>; \<open>own\<close> says that the event carries the identifier of the pool's timer. Any
  other event goes to \<^verbatim>\<open>QObject::timerEvent\<close>, which does nothing to the pool.
\<close>

definition timerEvent :: "app \<Rightarrow> bool \<Rightarrow> int \<Rightarrow> TKvsDatabasePool \<Rightarrow> error + TKvsDatabasePool" where
  "timerEvent a own now s = (if own then timer_types a now 0 s else Inr s)"

section \<open>The pool and its callers\<close>

text \<open>
  The pool does not record which connections are out; callers do, by holding the handles
  that \<^verbatim>\<open>database\<close> returned. A state of the whole is the pool together with the list of
  handles that callers hold. Callers acquire a connection of a type (with the backend's
  answer to an open attempt), release a handle they hold or an invalid one, and the timer
  ticks. Besides,
  the backend or the network may drop a connection at any time, which leaves it closed.
  An operation that throws or never returns yields no next state.
\<close>

datatype pool_op =
  Acquire int "string \<Rightarrow> bool"
| Release TKvsDatabase int
| Tick int
| ConnectionLost string

type_synonym pool_sys = "TKvsDatabasePool \<times> TKvsDatabase list"

fun pool_step :: "app \<Rightarrow> pool_op \<Rightarrow> pool_sys \<Rightarrow> pool_sys option" where
  "pool_step a (Acquire type openOk) (s, held) =
     (case database a openOk type s of
        Some (Inr (db, s')) \<Rightarrow> Some (s', if isValid db then db # held else held)
      | Some (Inl e) \<Rightarrow> None
      | None \<Rightarrow> None)"
| "pool_step a (Release db now) (s, held) =
     (if db \<in> set held \<or> \<not> isValid db then
        (case pool now db s of
           Inr (db', s') \<Rightarrow> Some (s', remove1 db held)
         | Inl e \<Rightarrow> None)
      else None)"
| "pool_step a (Tick now) (s, held) =
     (case timerEvent a True now s of
        Inr s' \<Rightarrow> Some (s', held)
      | Inl e \<Rightarrow> None)"
| "pool_step a (ConnectionLost name) (s, held) =
     Some (s\<lparr>databaseMap := kvs_close (databaseMap s) name\<rparr>, held)"

fun pool_run :: "app \<Rightarrow> pool_op list \<Rightarrow> pool_sys \<Rightarrow> pool_sys option" where
  "pool_run a [] st = Some st"
| "pool_run a (x # xs) st =
     (case pool_step a x st of None \<Rightarrow> None | Some st' \<Rightarrow> pool_run a xs st')"

text \<open>The start: the pool as \<^verbatim>\<open>instance\<close> builds it, and no handle given out.\<close>

definition pool_start :: "app \<Rightarrow> (int \<Rightarrow> 32 word) \<Rightarrow> kvs_table \<Rightarrow> pool_sys option" where
  "pool_start a lct0 m0 =
     (case instance_pool a lct0 m0 of Inl e \<Rightarrow> None | Inr s \<Rightarrow> Some (s, []))"

text \<open>The type whose warm stack a handle goes to when it is released.\<close>

definition handle_type :: "TKvsDatabase \<Rightarrow> int" where
  "handle_type db = kvsTypeHash_value (driverName db) (- 1)"

text \<open>Every place a connection name of a type can be in: warm stack, cold stack, a caller.\<close>

definition warm :: "pool_sys \<Rightarrow> int \<Rightarrow> string list" where
  "warm st t = cachedDatabase (fst st) t"

definition cold :: "pool_sys \<Rightarrow> int \<Rightarrow> string list" where
  "cold st t = availableNames (fst st) t"

definition in_use :: "pool_sys \<Rightarrow> int \<Rightarrow> string list" where
  "in_use st t =
     map connectionName (filter (\<lambda>db. handle_type db = t) (snd st))"

definition pool_names :: "pool_sys \<Rightarrow> string list" where
  "pool_names st =
     warm st MongoDB @ cold st MongoDB @ warm st Redis @ cold st Redis @ map connectionName (snd st)"

text \<open>
  What one call of the acquire loop may do to the names: it touches the two stacks of its
  own type only, and what it leaves there together with the name it hands out was there
  before.
\<close>

definition loop_rel :: "int \<Rightarrow> TKvsDatabasePool \<Rightarrow> TKvsDatabase \<times> TKvsDatabasePool \<Rightarrow> bool" where
  "loop_rel t s r =
     (case r of (db, s') \<Rightarrow>
        (\<forall>u. u \<noteq> t \<longrightarrow> cachedDatabase s' u = cachedDatabase s u \<and> availableNames s' u = availableNames s u) \<and>
        mset (cachedDatabase s' t) + mset (availableNames s' t) + (if isValid db then {#connectionName db#} else {#})
          \<subseteq># mset (cachedDatabase s t) + mset (availableNames s t))"

text \<open>
  The cold stack of a type as \<^verbatim>\<open>init\<close> leaves it: the names of the indices below some \<open>k\<close>,
  the last one on top; \<open>k\<close> is the configured number when the type is enabled and its
  driver can be created, and 0 when the type is disabled.
\<close>

definition init_stack :: "app \<Rightarrow> bool \<Rightarrow> string \<Rightarrow> int \<Rightarrow> string list \<Rightarrow> bool" where
  "init_stack a avail drv type stack =
     (\<exists>k. 0 \<le> k \<and> k \<le> max 0 (maxNumberOfThreadsPerAppServer a) \<and>
          (\<not> avail \<longrightarrow> k = 0) \<and>
          (avail \<and> createDriver a drv \<longrightarrow> k = max 0 (maxNumberOfThreadsPerAppServer a)) \<and>
          stack = rev (map (conn_name type) [0..k - 1]))"

text \<open>
  The names of a list are registered with a driver, and the driver is the one of type \<open>t\<close>.
\<close>

definition typed_names :: "kvs_table \<Rightarrow> int \<Rightarrow> string list \<Rightarrow> bool" where
  "typed_names m t ns =
     (\<forall>n\<in>set ns. isValid (kvs_database m n) \<and> handle_type (kvs_database m n) = t)"

text \<open>
  The stacks of a type hold names registered for that type, and every held handle is the
  valid handle of the connection registered under its name.
\<close>

definition pool_wf :: "pool_sys \<Rightarrow> bool" where
  "pool_wf st =
     (typed_names (databaseMap (fst st)) MongoDB (warm st MongoDB @ cold st MongoDB) \<and>
      typed_names (databaseMap (fst st)) Redis (warm st Redis @ cold st Redis) \<and>
      (\<forall>db\<in>set (snd st). isValid db \<and> db = kvs_database (databaseMap (fst st)) (connectionName db) \<and>
           (handle_type db = MongoDB \<or> handle_type db = Redis)))"

text \<open>An operation during which the backend accepts every connection it is asked to open.\<close>

definition opens_succeed :: "pool_op \<Rightarrow> bool" where
  "opens_succeed x = (case x of Acquire t openOk \<Rightarrow> (\<forall>n. openOk n) | _ \<Rightarrow> True)"

text \<open>
  What the acquire loop does when the names on the stacks of the type are registered for
  it: it takes exactly one name off the stacks, and hands out either the handle of that
  name or, when the backend refuses to open it, the invalid object.
\<close>

definition acquire_rel :: "(string \<Rightarrow> bool) \<Rightarrow> int \<Rightarrow> TKvsDatabasePool \<Rightarrow> TKvsDatabase \<times> TKvsDatabasePool \<Rightarrow> bool" where
  "acquire_rel openOk t s r =
     (typed_names (databaseMap s) t (cachedDatabase s t @ availableNames s t) \<longrightarrow>
      (case r of (db, s') \<Rightarrow>
         \<exists>name. (db = kvs_database (databaseMap s) name \<or> db = TKvsDatabase_invalid \<and> \<not> openOk name) \<and>
            name \<in> set (cachedDatabase s t @ availableNames s t) \<and>
            mset (cachedDatabase s t) + mset (availableNames s t)
              = add_mset name (mset (cachedDatabase s' t) + mset (availableNames s' t)) \<and>
            (\<forall>u. u \<noteq> t \<longrightarrow> cachedDatabase s' u = cachedDatabase s u \<and> availableNames s' u = availableNames s u) \<and>
            (\<forall>n. kvs_database (databaseMap s') n = kvs_database (databaseMap s) n)))"

text \<open>The names of a type on its warm stack, on its cold stack and with callers, counted.\<close>

definition total :: "pool_sys \<Rightarrow> int \<Rightarrow> nat" where
  "total st t = length (warm st t) + length (cold st t) + length (in_use st t)"


section \<open>tthreadapplicationserver.cpp\<close>

text \<open>
  The server with the static stack behind \<^verbatim>\<open>threadPoolPtr()\<close>. The class \<^verbatim>\<open>TActionThread\<close> is
  declared elsewhere. Modelled from the spec: a worker is either idle in the pool or
  running; it is identified by the index at which the constructor created it, and
  \<open>running\<close> lists the workers that were started and have not finished, each with the
  socket descriptor it was given.
\<close>

record TThreadApplicationServer =
  listenSocket :: int
  maxThreads :: int
  threadPool :: "nat list"
  running :: "(nat \<times> int) list"

text \<open>The thread pooling loop of the constructor, from index \<open>i\<close> on.\<close>

function create_threads :: "int \<Rightarrow> int \<Rightarrow> nat list \<Rightarrow> nat list" where
  "create_threads n i stack =
     (if i < n then create_threads n (i + 1) (stack_push (nat i) stack) else stack)"
  by pat_completeness auto
termination
  by (relation "measure (\<lambda>(n, i, stack). nat (n - i))") auto

declare create_threads.simps [simp del]

text \<open>
  The constructor. \<open>maxThreadsPerAppServer\<close> and \<open>maxServers\<close> are the two settings of the
  multi-processing module as \<^verbatim>\<open>toInt()\<close> returns them. The \<^verbatim>\<open>Q_ASSERT\<close> at the end is a
  debug-build check of the module name.
\<close>

definition TThreadApplicationServer_new :: "int \<Rightarrow> int \<Rightarrow> int \<Rightarrow> TThreadApplicationServer" where
  "TThreadApplicationServer_new listeningSocket maxThreadsPerAppServer maxServers =
     (let n = (if maxThreadsPerAppServer = 0 then maxServers else maxThreadsPerAppServer)
      in \<lparr>listenSocket = listeningSocket, maxThreads = n,
          threadPool = create_threads n 0 [], running = []\<rparr>)"

text \<open>
  \<^verbatim>\<open>incomingConnection\<close>: the \<^verbatim>\<open>while\<close> loop sleeps and retries until a thread can be popped.
  Run on its own with an empty stack it never returns.
\<close>

partial_function (option) incomingConnection :: "int \<Rightarrow> TThreadApplicationServer \<Rightarrow> TThreadApplicationServer option" where
  "incomingConnection socketDescriptor s =
     (case stack_pop (threadPool s) of
        None \<Rightarrow> incomingConnection socketDescriptor s
      | Some (thread, rest) \<Rightarrow>
          Some (s\<lparr>threadPool := rest, running := (thread, socketDescriptor) # running s\<rparr>))"

declare incomingConnection.simps [code]

fun remove_thread :: "nat \<Rightarrow> (nat \<times> int) list \<Rightarrow> (nat \<times> int) list" where
  "remove_thread thread [] = []"
| "remove_thread thread ((th, sd) # rest) =
     (if th = thread then rest else (th, sd) # remove_thread thread rest)"

text \<open>
  The function connected to \<^verbatim>\<open>TActionThread::finished\<close> in the constructor: the thread has
  ended its run and is pushed onto the stack.
\<close>

definition thread_finished :: "nat \<Rightarrow> TThreadApplicationServer \<Rightarrow> TThreadApplicationServer" where
  "thread_finished thread s =
     s\<lparr>threadPool := stack_push thread (threadPool s), running := remove_thread thread (running s)\<rparr>"

text \<open>
  What happens to a server: a connection comes in, or a running thread finishes. Only a
  running thread can finish.
\<close>

datatype server_op = Incoming int | Finished nat

fun server_step :: "server_op \<Rightarrow> TThreadApplicationServer \<Rightarrow> TThreadApplicationServer option" where
  "server_step (Incoming socketDescriptor) s = incomingConnection socketDescriptor s"
| "server_step (Finished thread) s =
     (if thread \<in> fst ` set (running s) then Some (thread_finished thread s) else None)"

fun server_run :: "server_op list \<Rightarrow> TThreadApplicationServer \<Rightarrow> TThreadApplicationServer option" where
  "server_run [] s = Some s"
| "server_run (x # xs) s =
     (case server_step x s of None \<Rightarrow> None | Some s' \<Rightarrow> server_run xs s')"

section \<open>tcachesqlitestore.cpp\<close>

text \<open>
  The store keeps its rows in an SQLite database that it reaches through \<^verbatim>\<open>TSqlQuery\<close>.
  Modelled from the spec: a single table keyed by byte-string keys that stores an expiry
  timestamp and a binary payload per key. A row is the key \<^verbatim>\<open>k\<close>, the timestamp \<^verbatim>\<open>t\<close> and
  the payload \<^verbatim>\<open>b\<close>; the table is the list of rows in ROWID order, and the database file
  has a page size and a page count. \<open>compact_pages\<close> is the number of pages the file
  takes once \<^verbatim>\<open>vacuum\<close> has rebuilt it for the given rows; it belongs to SQLite, not to
  the store. Queries are taken to succeed.
\<close>

type_synonym cache_row = "string \<times> int \<times> string"

definition row_t :: "cache_row \<Rightarrow> int" where
  "row_t r = fst (snd r)"

record TCacheSQLiteStore =
  thresholdFileSize :: int
  table_rows :: "cache_row list"
  page_size :: int
  page_count :: int
  compact_pages :: "cache_row list \<Rightarrow> int"

definition count_rows :: "TCacheSQLiteStore \<Rightarrow> int" where
  "count_rows s = int (length (table_rows s))"

text \<open>\<^verbatim>\<open>delete from kb where t < :ts\<close>\<close>

definition removeOlderThan :: "int \<Rightarrow> TCacheSQLiteStore \<Rightarrow> int \<times> TCacheSQLiteStore" where
  "removeOlderThan timestamp s =
     (int (length (filter (\<lambda>r. row_t r < timestamp) (table_rows s))),
      s\<lparr>table_rows := filter (\<lambda>r. \<not> row_t r < timestamp) (table_rows s)\<rparr>)"

text \<open>
  \<^verbatim>\<open>delete from kb where ROWID in (select ROWID from kb order by t asc limit :num)\<close>:
  the first \<open>num\<close> rows in ascending order of \<^verbatim>\<open>t\<close> are the ones deleted.
\<close>

definition older_rows :: "nat \<Rightarrow> cache_row list \<Rightarrow> cache_row list" where
  "older_rows num rs = take num (sort_key row_t rs)"

definition removeOlder :: "int \<Rightarrow> TCacheSQLiteStore \<Rightarrow> int \<times> TCacheSQLiteStore" where
  "removeOlder num s =
     (if num < 1 then (- 1, s)
      else (int (length (older_rows (nat num) (table_rows s))),
            s\<lparr>table_rows := fold remove1 (older_rows (nat num) (table_rows s)) (table_rows s)\<rparr>))"

definition vacuum :: "TCacheSQLiteStore \<Rightarrow> TCacheSQLiteStore" where
  "vacuum s = s\<lparr>page_count := compact_pages s (table_rows s)\<rparr>"

definition dbSize :: "TCacheSQLiteStore \<Rightarrow> int" where
  "dbSize s = page_size s * page_count s"

text \<open>
  \<^verbatim>\<open>count() * 0.3\<close> is a product of doubles that the call converts to \<^verbatim>\<open>int\<close>, which drops
  the fraction. \<^verbatim>\<open>dbSize() < _thresholdFileSize * 0.8\<close> compares doubles. Both are taken with
  exact arithmetic here.
\<close>

definition times_0_3 :: "int \<Rightarrow> int" where
  "times_0_3 n = (if 0 \<le> n then (3 * n) div 10 else - ((3 * (- n)) div 10))"

definition under_0_8 :: "int \<Rightarrow> int \<Rightarrow> bool" where
  "under_0_8 sz threshold = (10 * sz < 8 * threshold)"

text \<open>
  The \<^verbatim>\<open>for\<close> loop of \<^verbatim>\<open>gc\<close>, from index \<open>i\<close> on. The counter \<^verbatim>\<open>removed\<close> only feeds a debug
  message.
\<close>

function gc_loop :: "int \<Rightarrow> TCacheSQLiteStore \<Rightarrow> TCacheSQLiteStore" where
  "gc_loop i s =
     (if i < 3 then
        (let s1 = snd (removeOlder (times_0_3 (count_rows s)) s);
             s2 = vacuum s1
         in if under_0_8 (dbSize s2) (thresholdFileSize s2) then s2 else gc_loop (i + 1) s2)
      else s)"
  by pat_completeness auto
termination
  by (relation "measure (\<lambda>(i, s). nat (3 - i))") auto

declare gc_loop.simps [simp del]

definition gc :: "int \<Rightarrow> TCacheSQLiteStore \<Rightarrow> TCacheSQLiteStore" where
  "gc now s =
     (let s1 = vacuum (snd (removeOlderThan now s))
      in if thresholdFileSize s1 > 0 \<and> dbSize s1 > thresholdFileSize s1 then gc_loop 0 s1 else s1)"

text \<open>One pass of the loop body: delete the oldest three tenths of the rows, then compact.\<close>

definition gc_round :: "TCacheSQLiteStore \<Rightarrow> TCacheSQLiteStore" where
  "gc_round s = vacuum (snd (removeOlder (times_0_3 (count_rows s)) s))"

section \<open>The reclaim sweep as the specification words it\<close>

text \<open>
  Following the specification: for a type, while the warm stack is not empty and its
  entries are idle for longer than the threshold, pop a name, close the connection and
  push the name onto the cold stack. \<open>idle\<close> is the idleness test, which the
  specification takes from the single last-release timestamp of the type.
\<close>

fun spec_reclaim :: "bool \<Rightarrow> string list \<Rightarrow> string list \<Rightarrow> kvs_table \<Rightarrow> string list \<times> string list \<times> kvs_table" where
  "spec_reclaim idle [] cs m = ([], cs, m)"
| "spec_reclaim idle (name # ws) cs m =
     (if idle then spec_reclaim idle ws (name # cs) (kvs_close m name) else (name # ws, cs, m))"

text \<open>Idle for longer than 30 time units: the time since the last release exceeds 30.\<close>

definition spec_reclaim_idle :: "int \<Rightarrow> int \<Rightarrow> TKvsDatabasePool \<Rightarrow> TKvsDatabasePool" where
  "spec_reclaim_idle now t s =
     (case spec_reclaim (now - uint (lastCachedTime s t) > 30)
             (cachedDatabase s t) (availableNames s t) (databaseMap s) of
        (ws, cs, m) \<Rightarrow>
          s\<lparr>cachedDatabase := (cachedDatabase s)(t := ws),
            databaseMap := m,
            availableNames := (availableNames s)(t := cs)\<rparr>)"

section \<open>Example configurations\<close>

text \<open>A configuration with Redis enabled and room for two connections, and one with room for one.\<close>

definition ex_app :: app where
  "ex_app = \<lparr>isMongoDbAvailable = False, isRedisAvailable = True,
             maxNumberOfThreadsPerAppServer = 2, createDriver = (\<lambda>_. True)\<rparr>"

definition ex_app1 :: app where
  "ex_app1 = \<lparr>isMongoDbAvailable = False, isRedisAvailable = True,
              maxNumberOfThreadsPerAppServer = 1, createDriver = (\<lambda>_. True)\<rparr>"

definition ex_db :: "string \<Rightarrow> TKvsDatabase" where
  "ex_db name = \<lparr>connectionName = name, driverName = ''REDIS'', isValid = True\<rparr>"

definition ex_data :: "bool \<Rightarrow> kvs_data" where
  "ex_data is_open = \<lparr>dataDriver = ''REDIS'', hasDriver = True, opened = is_open\<rparr>"

text \<open>A pool with the given warm and cold stack for Redis and the given connection table.\<close>

definition ex_pool :: "string list \<Rightarrow> string list \<Rightarrow> kvs_table \<Rightarrow> TKvsDatabasePool" where
  "ex_pool ws cs m =
     \<lparr>initialised = True, cachedDatabase = (\<lambda>_. [])(Redis := ws), lastCachedTime = (\<lambda>_. 0),
      availableNames = (\<lambda>_. [])(Redis := cs), maxConnects = 2, timer = Some 10000, databaseMap = m\<rparr>"

definition ex_table :: kvs_table where
  "ex_table = [''kvs01_0'' \<mapsto> ex_data True, ''kvs01_1'' \<mapsto> ex_data True]"

text \<open>
  A store of twenty rows with the expiry times 1 to 20, on pages of 10 bytes, one page
  per row once compacted, and a threshold of 150 bytes.
\<close>

definition ex_store :: TCacheSQLiteStore where
  "ex_store =
     \<lparr>thresholdFileSize = 150,
      table_rows = map (\<lambda>i. (show_nat i, int i, [])) (rev [1..<21]),
      page_size = 10, page_count = 20, compact_pages = (\<lambda>rs. int (length rs))\<rparr>"

section \<open>Facts about the acquire loop\<close>

lemma connectionName_kvs_database [simp]: "connectionName (kvs_database m n) = n"
  by (simp add: kvs_database_def split: option.splits)

lemma database_loop_warm_open:
  assumes "cachedDatabase s t = name # rest" "isOpen (databaseMap s) (kvs_database (databaseMap s) name)"
  shows "database_loop openOk t s = Some (kvs_database (databaseMap s) name, s\<lparr>cachedDatabase := (cachedDatabase s)(t := rest)\<rparr>)"
  using assms by (subst database_loop.simps) simp

lemma database_loop_warm_broken:
  assumes "cachedDatabase s t = name # rest" "\<not> isOpen (databaseMap s) (kvs_database (databaseMap s) name)"
  shows "database_loop openOk t s = database_loop openOk t (s\<lparr>cachedDatabase := (cachedDatabase s)(t := rest),
                     availableNames := (availableNames s)(t := name # availableNames s t)\<rparr>)"
  using assms by (subst database_loop.simps) (simp add: stack_push_def)

lemma database_loop_all_broken:
  assumes "\<forall>n\<in>set (cachedDatabase s t). \<not> isOpen (databaseMap s) (kvs_database (databaseMap s) n)"
  shows "database_loop openOk t s = database_loop openOk t
           (s\<lparr>cachedDatabase := (cachedDatabase s)(t := []),
              availableNames := (availableNames s)(t := rev (cachedDatabase s t) @ availableNames s t)\<rparr>)"
  using assms
proof (induction w \<equiv> "cachedDatabase s t" arbitrary: s)
  case Nil
  then have "(cachedDatabase s)(t := []) = cachedDatabase s" "(availableNames s)(t := availableNames s t) = availableNames s"
    by (auto simp: fun_eq_iff)
  with Nil show ?case by simp
next
  case (Cons name rest)
  let ?s1 = "s\<lparr>cachedDatabase := (cachedDatabase s)(t := rest),
                     availableNames := (availableNames s)(t := name # availableNames s t)\<rparr>"
  have w: "cachedDatabase s t = name # rest" using Cons.hyps(2) by simp
  have "database_loop openOk t s = database_loop openOk t ?s1"
    using w Cons.prems by (intro database_loop_warm_broken) auto
  also have "\<dots> = database_loop openOk t (?s1\<lparr>cachedDatabase := (cachedDatabase ?s1)(t := []),
              availableNames := (availableNames ?s1)(t := rev (cachedDatabase ?s1 t) @ availableNames ?s1 t)\<rparr>)"
    using Cons.prems w by (intro Cons.hyps(1)) auto
  finally show ?case using w by simp
qed

lemma database_loop_returns:
  assumes "cachedDatabase s t \<noteq> [] \<or> availableNames s t \<noteq> []"
  shows "\<exists>r. database_loop openOk t s = Some r"
  using assms
proof (induction w \<equiv> "cachedDatabase s t" arbitrary: s)
  case Nil
  then obtain name rest where "availableNames s t = name # rest"
    by (cases "availableNames s t") auto
  with Nil(1)[symmetric] show ?case
    by (subst database_loop.simps) (auto split: prod.splits bool.splits)
next
  case (Cons name rest)
  have w: "cachedDatabase s t = name # rest" using Cons.hyps(2) by simp
  show ?case
  proof (cases "isOpen (databaseMap s) (kvs_database (databaseMap s) name)")
    case True
    with w show ?thesis by (simp add: database_loop_warm_open)
  next
    case False
    let ?s1 = "s\<lparr>cachedDatabase := (cachedDatabase s)(t := rest),
                  availableNames := (availableNames s)(t := name # availableNames s t)\<rparr>"
    have "\<exists>r. database_loop openOk t ?s1 = Some r"
      by (rule Cons.hyps(1)) simp_all
    with database_loop_warm_broken[OF w False] show ?thesis by simp
  qed
qed

lemma database_loop_Some_nonempty:
  assumes "database_loop openOk t s = Some r"
  shows "cachedDatabase s t \<noteq> [] \<or> availableNames s t \<noteq> []"
  using assms
proof (induction rule: database_loop.raw_induct[rotated 1, consumes 1])
  case (1 f openOk t s r)
  show ?case
  proof (cases "cachedDatabase s t = [] \<and> availableNames s t = []")
    case True
    with 1(2) have "f openOk t s = Some r" by simp
    from 1(1)[OF this] show ?thesis .
  next
    case False
    then show ?thesis by simp
  qed
qed

lemma database_loop_blocks:
  assumes "cachedDatabase s t = []" and "availableNames s t = []"
  shows "database_loop openOk t s = None"
  using database_loop_Some_nonempty[of openOk t s] assms
  by (cases "database_loop openOk t s") auto

lemma database_loop_rel:
  assumes "database_loop openOk t s = Some r"
  shows "loop_rel t s r"
  using assms
proof (induction rule: database_loop.raw_induct[rotated 1, consumes 1])
  case (1 f openOk t s r)
  show ?case
  proof (cases "cachedDatabase s t")
    case (Cons name rest)
    show ?thesis
    proof (cases "isOpen (databaseMap s) (kvs_database (databaseMap s) name)")
      case True
      with 1(2) Cons show ?thesis by (auto simp: loop_rel_def)
    next
      case False
      with 1(2) Cons have "f openOk t (s\<lparr>cachedDatabase := (cachedDatabase s)(t := rest),
                     availableNames := (availableNames s)(t := stack_push name (availableNames s t))\<rparr>) = Some r"
        by simp
      from 1(1)[OF this] Cons show ?thesis
        by (auto simp: loop_rel_def stack_push_def split: prod.splits if_splits)
    qed
  next
    case Nil
    show ?thesis
    proof (cases "availableNames s t")
      case Nil2: Nil
      with 1(2) Nil have "f openOk t s = Some r" by simp
      from 1(1)[OF this] show ?thesis .
    next
      case (Cons name rest)
      with 1(2) Nil show ?thesis
        by (auto simp: loop_rel_def TKvsDatabase_invalid_def split: if_splits prod.splits bool.splits)
    qed
  qed
qed


section \<open>Facts about the timer event\<close>

lemma close_extra_rel:
  "(\<forall>u. u \<noteq> t \<longrightarrow> cachedDatabase (close_extra now t s) u = cachedDatabase s u
        \<and> availableNames (close_extra now t s) u = availableNames s u) \<and>
   mset (cachedDatabase (close_extra now t s) t) + mset (availableNames (close_extra now t s) t)
     = mset (cachedDatabase s t) + mset (availableNames s t)"
proof (induction now t s rule: close_extra.induct)
  case (1 now t s)
  show ?case
  proof (cases "lastCachedTime s t < word_of_int now - 30")
    case False
    then show ?thesis by (subst (1 2 3 4) close_extra.simps) simp
  next
    case True
    show ?thesis
    proof (cases "cachedDatabase s t")
      case Nil
      with True show ?thesis by (subst (1 2 3 4) close_extra.simps) simp
    next
      case (Cons name rest)
      from 1[OF True, of "(name, rest)" name rest] Cons True show ?thesis
        by (subst (1 2 3 4) close_extra.simps) (simp add: stack_push_def)
    qed
  qed
qed

lemma timer_types_0:
  "timer_types a now 0 s =
     Inr ((if isRedisAvailable a then close_extra now Redis else id)
            ((if isMongoDbAvailable a then close_extra now MongoDB else id) s))"
proof -
  have 2: "timer_types a now 2 s' = Inr s'" for s'
    by (subst timer_types.simps) (simp add: kvsTypeHash_count_def kvsTypeHash_def)
  have 1: "timer_types a now 1 s' = Inr ((if isRedisAvailable a then close_extra now Redis else id) s')" for s'
    by (subst timer_types.simps)
       (simp add: kvsTypeHash_count_def kvsTypeHash_def isKvsAvailable_def MongoDB_def Redis_def 2)
  show ?thesis
    by (subst timer_types.simps)
       (simp add: kvsTypeHash_count_def kvsTypeHash_def isKvsAvailable_def MongoDB_def Redis_def 1)
qed

lemma timerEvent_rel:
  assumes "timerEvent a own now s = Inr s'"
  shows "mset (cachedDatabase s' t) + mset (availableNames s' t)
           = mset (cachedDatabase s t) + mset (availableNames s t)"
proof -
  have r: "mset (cachedDatabase (close_extra now u s1) v) + mset (availableNames (close_extra now u s1) v)
           = mset (cachedDatabase s1 v) + mset (availableNames s1 v)" for u v s1
    using close_extra_rel[of u now s1] by (cases "v = u") auto
  from assms show ?thesis
    by (auto simp: timerEvent_def timer_types_0 r split: if_splits)
qed

section \<open>No operation brings in a name\<close>

lemma pool_step_names:
  assumes "pool_step a x st = Some st'"
  shows "mset (pool_names st') \<subseteq># mset (pool_names st)"
proof (cases x)
  case (Acquire t openOk)
  obtain s held where st: "st = (s, held)" by (cases st)
  from assms Acquire st obtain db s' where
    d: "database a openOk t s = Some (Inr (db, s'))" and st': "st' = (s', if isValid db then db # held else held)"
    by (auto split: option.splits sum.splits)
  show ?thesis
  proof (cases "isKvsAvailable a t")
    case (Inl e)
    with d show ?thesis by (simp add: database_def)
  next
    case (Inr av)
    then have t: "t = MongoDB \<or> t = Redis" by (auto simp: isKvsAvailable_def split: if_splits)
    show ?thesis
    proof (cases av)
      case False
      with Inr d st st' show ?thesis by (auto simp: database_def TKvsDatabase_invalid_def)
    next
      case True
      with Inr d have "database_loop openOk t s = Some (db, s')" by (auto simp: database_def)
      then have "loop_rel t s (db, s')" by (rule database_loop_rel)
      then have o: "\<And>u. u \<noteq> t \<Longrightarrow> cachedDatabase s' u = cachedDatabase s u \<and> availableNames s' u = availableNames s u"
        and "mset (cachedDatabase s' t) + mset (availableNames s' t) + (if isValid db then {#connectionName db#} else {#})
           \<subseteq># mset (cachedDatabase s t) + mset (availableNames s t)"
        by (auto simp: loop_rel_def)
      then obtain C where C: "mset (cachedDatabase s t) + mset (availableNames s t) =
          mset (cachedDatabase s' t) + mset (availableNames s' t) + (if isValid db then {#connectionName db#} else {#}) + C"
        by (auto simp: mset_subset_eq_exists_conv)
      from t show ?thesis
      proof
        assume t0: "t = MongoDB"
        then have "Redis \<noteq> t" by (simp add: MongoDB_def Redis_def)
        from o[OF this] C t0 have "mset (pool_names st) = mset (pool_names st') + C"
          by (simp add: pool_names_def warm_def cold_def st st')
        then show ?thesis by simp
      next
        assume t1: "t = Redis"
        then have "MongoDB \<noteq> t" by (simp add: MongoDB_def Redis_def)
        from o[OF this] C t1 have "mset (pool_names st) = mset (pool_names st') + C"
          by (simp add: pool_names_def warm_def cold_def st st')
        then show ?thesis by simp
      qed
    qed
  qed
next
  case (Release db now)
  obtain s held where st: "st = (s, held)" by (cases st)
  from assms Release st obtain db' s' where
    h: "db \<in> set held \<or> \<not> isValid db" and p: "pool now db s = Inr (db', s')"
    and st': "st' = (s', remove1 db held)"
    by (auto split: if_splits sum.splits)
  show ?thesis
  proof (cases "isValid db")
    case False
    with p have "s' = s" by (simp add: pool_def)
    moreover have "image_mset connectionName (mset held - {#db#}) \<subseteq># image_mset connectionName (mset held)"
      by (intro image_mset_subseteq_mono diff_subset_eq_self)
    ultimately show ?thesis by (simp add: pool_names_def warm_def cold_def st st')
  next
    case True
    with h have "mset held = add_mset db (mset held - {#db#})" by simp
    then have m: "image_mset connectionName (mset held) =
        add_mset (connectionName db) (image_mset connectionName (mset held - {#db#}))"
      by (metis image_mset_add_mset)
    from True p have "kvsTypeHash_value (driverName db) (- 1) = MongoDB \<or> kvsTypeHash_value (driverName db) (- 1) = Redis"
      by (auto simp: pool_def Let_def kvsTypeHash_value_def kvsTypeHash_def split: if_splits option.splits)
    then have "mset (pool_names st') = mset (pool_names st)"
      using p True m
      by (auto simp: pool_def Let_def pool_names_def warm_def cold_def st st' stack_push_def MongoDB_def Redis_def split: if_splits)
    then show ?thesis by simp
  qed
next
  case (Tick now)
  obtain s held where st: "st = (s, held)" by (cases st)
  from assms Tick st obtain s' where
    p: "timerEvent a True now s = Inr s'" and st': "st' = (s', held)"
    by (auto split: sum.splits)
  have "mset (warm st' MongoDB) + mset (cold st' MongoDB) = mset (warm st MongoDB) + mset (cold st MongoDB)"
       "mset (warm st' Redis) + mset (cold st' Redis) = mset (warm st Redis) + mset (cold st Redis)"
    using timerEvent_rel[OF p] by (simp_all add: warm_def cold_def st st')
  then have "mset (pool_names st') = mset (pool_names st)"
    by (simp add: pool_names_def st st' add.assoc[symmetric])
  then show ?thesis by simp
next
  case (ConnectionLost name)
  with assms have "pool_names st' = pool_names st"
    by (cases st) (auto simp: pool_names_def warm_def cold_def)
  then show ?thesis by simp
qed

lemma pool_run_names:
  "pool_run a xs st = Some st' \<Longrightarrow> mset (pool_names st') \<subseteq># mset (pool_names st)"
proof (induction xs arbitrary: st)
  case Nil
  then show ?case by simp
next
  case (Cons x xs)
  then obtain st1 where 1: "pool_step a x st = Some st1" and 2: "pool_run a xs st1 = Some st'"
    by (auto split: option.splits)
  from pool_step_names[OF 1] Cons.IH[OF 2] show ?case
    by (rule subset_mset.order_trans[rotated])
qed

section \<open>Facts about the name format\<close>

lemma show_nat_nonempty: "show_nat n \<noteq> []"
  by (subst show_nat.simps) simp

lemma digit_char_inj: "d < 10 \<Longrightarrow> e < 10 \<Longrightarrow> digit_char d = digit_char e \<Longrightarrow> d = e"
  by (simp add: digit_char_def split: if_splits) arith

lemma show_nat_inj: "show_nat n = show_nat m \<Longrightarrow> n = m"
proof (induction n arbitrary: m rule: show_nat.induct)
  case (1 n)
  show ?case
  proof (cases "n < 10")
    case True
    then have n: "show_nat n = [digit_char n]" by (subst show_nat.simps) simp
    show ?thesis
    proof (cases "m < 10")
      case m: True
      then have "show_nat m = [digit_char m]" by (subst show_nat.simps) simp
      with n 1(2) True m show ?thesis by (auto dest: digit_char_inj)
    next
      case False
      then have "show_nat m = show_nat (m div 10) @ [digit_char (m mod 10)]" by (subst show_nat.simps) simp
      with n 1(2) show_nat_nonempty[of "m div 10"] show ?thesis by (cases "show_nat (m div 10)") auto
    qed
  next
    case False
    then have n: "show_nat n = show_nat (n div 10) @ [digit_char (n mod 10)]" by (subst show_nat.simps) simp
    show ?thesis
    proof (cases "m < 10")
      case True
      then have "show_nat m = [digit_char m]" by (subst show_nat.simps) simp
      with n 1(2) show_nat_nonempty[of "n div 10"] show ?thesis by (cases "show_nat (n div 10)") auto
    next
      case m: False
      then have "show_nat m = show_nat (m div 10) @ [digit_char (m mod 10)]" by (subst show_nat.simps) simp
      with n 1(2) have a: "show_nat (n div 10) = show_nat (m div 10)" and b: "digit_char (n mod 10) = digit_char (m mod 10)"
        by auto
      from 1(1)[OF False a] have "n div 10 = m div 10" .
      moreover from b have "n mod 10 = m mod 10" by (intro digit_char_inj) auto
      ultimately show ?thesis by (metis div_mult_mod_eq)
    qed
  qed
qed

lemma conn_name_inj: "0 \<le> i \<Longrightarrow> 0 \<le> j \<Longrightarrow> conn_name t i = conn_name t j \<Longrightarrow> i = j"
  by (auto simp: conn_name_def show_int_def dest: show_nat_inj)

lemma show_nat_0: "show_nat 0 = ''0''"
  by (subst show_nat.simps) (simp add: digit_char_def)

lemma show_nat_1: "show_nat (Suc 0) = ''1''"
  by (subst show_nat.simps) (simp add: digit_char_def)

lemma show_int_02_0: "show_int_02 MongoDB = ''00''"
  by (simp add: show_int_02_def MongoDB_def show_nat_0)

lemma show_int_02_1: "show_int_02 Redis = ''01''"
  by (simp add: show_int_02_def Redis_def show_nat_1)

lemma conn_name_types: "conn_name MongoDB i \<noteq> conn_name Redis j"
  by (simp add: conn_name_def show_int_02_0 show_int_02_1)

section \<open>Facts about the initialisation\<close>

lemma init_names_stack:
  assumes "0 \<le> i"
  shows "\<exists>k. i \<le> k \<and> k \<le> max i n \<and> (createDriver a drv \<longrightarrow> k = max i n) \<and>
     snd (init_names a drv type n i (m, stack)) = rev (map (conn_name type) [i..k - 1]) @ stack"
  using assms
proof (induction a drv type n i "(m, stack)" arbitrary: m stack rule: init_names.induct)
  case (1 a drv type n i m stack)
  show ?case
  proof (cases "i < n")
    case False
    then show ?thesis by (subst init_names.simps) (auto intro!: exI[of _ i])
  next
    case True
    show ?thesis
    proof (cases "createDriver a drv")
      case False
      with True show ?thesis
        by (subst init_names.simps) (auto simp: addDatabase_def Let_def kvs_database_def intro!: exI[of _ i])
    next
      case d: True
      let ?m' = "m(conn_name type i \<mapsto> \<lparr>dataDriver = drv, hasDriver = createDriver a drv, opened = False\<rparr>)"
      have e: "init_names a drv type n i (m, stack) = init_names a drv type n (i + 1) (?m', conn_name type i # stack)"
        using True d by (subst init_names.simps) (simp add: addDatabase_def Let_def kvs_database_def stack_push_def)
      have "\<exists>k. i + 1 \<le> k \<and> k \<le> max (i + 1) n \<and> (createDriver a drv \<longrightarrow> k = max (i + 1) n) \<and>
         snd (init_names a drv type n (i + 1) (?m', conn_name type i # stack)) = rev (map (conn_name type) [i + 1..k - 1]) @ (conn_name type i # stack)"
        using True d 1(2) 1(1)[of "kvs_database ?m' (conn_name type i)" ?m']
        by (simp add: addDatabase_def Let_def kvs_database_def stack_push_def)
      then obtain k where k: "i + 1 \<le> k" "k \<le> max (i + 1) n" "createDriver a drv \<longrightarrow> k = max (i + 1) n"
        "snd (init_names a drv type n (i + 1) (?m', conn_name type i # stack)) = rev (map (conn_name type) [i + 1..k - 1]) @ (conn_name type i # stack)"
        by blast
      from k(1) have "[i..k - 1] = i # [i + 1..k - 1]" by (simp add: upto_rec1)
      with k True e show ?thesis by (intro exI[of _ k]) auto
    qed
  qed
qed

lemma init_stack_names:
  "init_stack a True drv type (snd (init_names a drv type (maxNumberOfThreadsPerAppServer a) 0 (m, [])))"
  using init_names_stack[of 0 "maxNumberOfThreadsPerAppServer a" a drv type m "[]"]
  by (auto simp: init_stack_def)

lemma init_stack_empty: "init_stack a False drv type []"
  by (auto simp: init_stack_def intro!: exI[of _ 0])

lemma instance_pool_shape:
  "\<exists>s. instance_pool a lct0 m0 = Inr s \<and>
       initialised s \<and>
       cachedDatabase s = (\<lambda>_. []) \<and>
       lastCachedTime s = lct0 \<and>
       maxConnects s = maxNumberOfThreadsPerAppServer a \<and>
       timer s = (if isMongoDbAvailable a \<or> isRedisAvailable a then Some 10000 else None) \<and>
       init_stack a (isMongoDbAvailable a) ''MONGODB'' MongoDB (availableNames s MongoDB) \<and>
       init_stack a (isRedisAvailable a) ''REDIS'' Redis (availableNames s Redis)"
  by (cases "isMongoDbAvailable a"; cases "isRedisAvailable a")
     (simp_all add: instance_pool_def init_def TKvsDatabasePool_new_def kvsTypeHash_def
        isKvsAvailable_def MongoDB_def Redis_def case_prod_beta
        init_stack_names[unfolded MongoDB_def Redis_def] init_stack_empty[unfolded MongoDB_def Redis_def])

lemma init_stack_distinct:
  assumes "init_stack a b0 d0 MongoDB st0" "init_stack a b1 d1 Redis st1"
  shows "distinct (st0 @ st1)"
proof -
  have inj: "inj_on (conn_name t) {0..k}" for t k
    by (auto simp: inj_on_def dest: conn_name_inj)
  have d: "distinct (map (conn_name t) [0..k])" for t k
    by (simp add: distinct_map inj)
  from assms d show ?thesis
    by (auto simp: init_stack_def conn_name_types)
qed

lemma pool_start_distinct:
  assumes "pool_start a lct0 m0 = Some st"
  shows "distinct (pool_names st)"
proof -
  from instance_pool_shape[of a lct0 m0] assms obtain s where
    s: "st = (s, [])" "cachedDatabase s = (\<lambda>_. [])"
      "init_stack a (isMongoDbAvailable a) ''MONGODB'' MongoDB (availableNames s MongoDB)"
      "init_stack a (isRedisAvailable a) ''REDIS'' Redis (availableNames s Redis)"
    by (auto simp: pool_start_def)
  from init_stack_distinct[OF s(3,4)] s(1,2) show ?thesis
    by (simp add: pool_names_def warm_def cold_def)
qed

section \<open>Names stay distinct\<close>

lemma distinct_mset_subseteq:
  assumes "mset ys \<subseteq># mset xs" "distinct xs"
  shows "distinct ys"
proof -
  have "count (mset xs) x \<le> 1" for x
    using assms(2) by (cases "x \<in> set xs") (simp_all add: distinct_count_atmost_1 count_eq_zero_iff)
  then have le: "count (mset ys) x \<le> 1" for x
    using mset_subset_eq_count[OF assms(1), of x] by (rule order_trans[rotated])
  have "count (mset ys) x = (if x \<in> set ys then 1 else 0)" for x
  proof (cases "x \<in> set ys")
    case True
    then have "0 < count (mset ys) x" by simp
    with le[of x] have "count (mset ys) x = 1" by linarith
    with True show ?thesis by simp
  next
    case False
    then show ?thesis by (simp add: count_eq_zero_iff)
  qed
  then show ?thesis by (simp add: distinct_count_atmost_1)
qed


lemma reachable_distinct:
  assumes "pool_start a lct0 m0 = Some st0" and "pool_run a xs st0 = Some st"
  shows "distinct (pool_names st)"
  using distinct_mset_subseteq[OF pool_run_names[OF assms(2)] pool_start_distinct[OF assms(1)]] .

lemma available_type: "isKvsAvailable a t = Inr b \<Longrightarrow> t = MongoDB \<or> t = Redis"
  by (auto simp: isKvsAvailable_def split: if_splits)

lemma pool_names_drop:
  assumes "t = MongoDB \<or> t = Redis"
    and "mset (cachedDatabase s t) + mset (availableNames s t) = add_mset name (mset (cachedDatabase s' t) + mset (availableNames s' t))"
    and "\<forall>u. u \<noteq> t \<longrightarrow> cachedDatabase s' u = cachedDatabase s u \<and> availableNames s' u = availableNames s u"
  shows "mset (pool_names (s, held)) = add_mset name (mset (pool_names (s', held)))"
  using assms(1)
proof
  assume t: "t = MongoDB"
  then have "Redis \<noteq> t" by (simp add: MongoDB_def Redis_def)
  with assms(3) have "cachedDatabase s' Redis = cachedDatabase s Redis" "availableNames s' Redis = availableNames s Redis"
    by auto
  with assms(2) t show ?thesis
    by (simp add: pool_names_def warm_def cold_def)
next
  assume t: "t = Redis"
  then have "MongoDB \<noteq> t" by (simp add: MongoDB_def Redis_def)
  with assms(3) have "cachedDatabase s' MongoDB = cachedDatabase s MongoDB" "availableNames s' MongoDB = availableNames s MongoDB"
    by auto
  with assms(2) t show ?thesis
    by (simp add: pool_names_def warm_def cold_def)
qed

lemma dropped_name_gone:
  assumes d: "distinct xs" and e: "mset xs = add_mset name (mset ys)" and sub: "mset zs \<subseteq># mset ys"
  shows "name \<notin> set zs \<and> length zs < length xs"
proof -
  from e have "size (mset xs) = Suc (size (mset ys))" by simp
  moreover from sub have "size (mset zs) \<le> size (mset ys)" by (rule size_mset_mono)
  ultimately have l: "length zs < length xs" by simp
  from d have "count (mset xs) name \<le> 1"
    by (cases "name \<in> set xs") (simp_all add: distinct_count_atmost_1 count_eq_zero_iff)
  with e have "count (mset ys) name = 0" by simp
  with mset_subset_eq_count[OF sub, of name] have "count (mset zs) name = 0" by simp
  then have "name \<notin> set zs" by (simp add: count_eq_zero_iff)
  with l show ?thesis by simp
qed


section \<open>The sweep and the unsigned comparison\<close>

lemma idle_test:
  assumes "30 \<le> now" "now < 2 ^ 32"
  shows "(w < (word_of_int now - 30 :: 32 word)) = (uint w + 30 < now)"
proof -
  have e: "(word_of_int now - 30 :: 32 word) = word_of_int (now - 30)" by simp
  have "uint (word_of_int (now - 30) :: 32 word) = now - 30"
    using assms by (subst uint_word_of_int_eq) (simp add: take_bit_int_eq_self)
  then show ?thesis unfolding e by (auto simp only: word_less_def)
qed

lemma close_extra_all:
  assumes "lastCachedTime s t < word_of_int now - 30"
  shows "close_extra now t s =
     s\<lparr>cachedDatabase := (cachedDatabase s)(t := []),
       databaseMap := fold (\<lambda>name m. kvs_close m name) (cachedDatabase s t) (databaseMap s),
       availableNames := (availableNames s)(t := rev (cachedDatabase s t) @ availableNames s t)\<rparr>"
  using assms
proof (induction w \<equiv> "cachedDatabase s t" arbitrary: s)
  case Nil
  then have "cachedDatabase s t = []" by simp
  moreover from this have "(cachedDatabase s)(t := []) = cachedDatabase s" by (auto simp: fun_eq_iff)
  moreover have "(availableNames s)(t := availableNames s t) = availableNames s" by (auto simp: fun_eq_iff)
  ultimately show ?case using Nil.prems by (subst close_extra.simps) simp
next
  case (Cons name rest)
  let ?s1 = "s\<lparr>cachedDatabase := (cachedDatabase s)(t := rest),
                  databaseMap := kvs_close (databaseMap s) name,
                  availableNames := (availableNames s)(t := stack_push name (availableNames s t))\<rparr>"
  have w: "cachedDatabase s t = name # rest" using Cons.hyps(2) by simp
  have "close_extra now t s = close_extra now t ?s1"
    using w Cons.prems by (subst close_extra.simps) simp
  also have "\<dots> = ?s1\<lparr>cachedDatabase := (cachedDatabase ?s1)(t := []),
       databaseMap := fold (\<lambda>name m. kvs_close m name) (cachedDatabase ?s1 t) (databaseMap ?s1),
       availableNames := (availableNames ?s1)(t := rev (cachedDatabase ?s1 t) @ availableNames ?s1 t)\<rparr>"
    using Cons.prems by (intro Cons.hyps(1)) simp_all
  finally show ?case using w by (simp add: stack_push_def)
qed

lemma spec_reclaim_idle: "spec_reclaim True ws cs m = ([], rev ws @ cs, fold (\<lambda>name m. kvs_close m name) ws m)"
  by (induction ws arbitrary: cs m) simp_all

lemma spec_reclaim_busy: "spec_reclaim False ws cs m = (ws, cs, m)"
  by (cases ws) simp_all

lemma close_extra_reclaim:
  assumes "30 \<le> now" "now < 2 ^ 32"
  shows "close_extra now t s = spec_reclaim_idle now t s"
proof (cases "lastCachedTime s t < word_of_int now - 30")
  case True
  then have "now - uint (lastCachedTime s t) > 30" using idle_test[OF assms] by simp
  with close_extra_all[OF True] show ?thesis
    by (simp add: spec_reclaim_idle_def spec_reclaim_idle)
next
  case False
  then have "\<not> now - uint (lastCachedTime s t) > 30" using idle_test[OF assms] by simp
  with False show ?thesis
    by (subst close_extra.simps) (simp add: spec_reclaim_idle_def spec_reclaim_busy)
qed

section \<open>Release and the next acquire\<close>

lemma release_then_acquire:
  assumes "isValid c" and "map_of kvsTypeHash (driverName c) = Some t"
    and "isKvsAvailable a t = Inr True"
    and "isOpen (databaseMap s) c" and "kvs_database (databaseMap s) (connectionName c) = c"
    and "s1 = s\<lparr>cachedDatabase := (cachedDatabase s)(t := connectionName c # cachedDatabase s t),
              lastCachedTime := (lastCachedTime s)(t := word_of_int now)\<rparr>"
  shows "pool now c s = Inr (TKvsDatabase_invalid, s1) \<and>
         database a openOk t s1 = Some (Inr (c, s\<lparr>lastCachedTime := (lastCachedTime s)(t := word_of_int now)\<rparr>))"
proof -
  from assms(2) have "t = MongoDB \<or> t = Redis"
    by (auto simp: kvsTypeHash_def split: if_splits)
  then have "0 \<le> t" by (auto simp: MongoDB_def Redis_def)
  with assms(1,2) have p: "pool now c s = Inr (TKvsDatabase_invalid, s1)"
    by (simp add: pool_def kvsTypeHash_value_def stack_push_def Let_def assms(6))
  have "(cachedDatabase s)(t := cachedDatabase s t) = cachedDatabase s" by (auto simp: fun_eq_iff)
  then have "database_loop openOk t s1 = Some (c, s\<lparr>lastCachedTime := (lastCachedTime s)(t := word_of_int now)\<rparr>)"
    using assms(4,5) by (subst database_loop.simps) (simp add: isOpen_def assms(6))
  with p assms(3) show ?thesis by (simp add: database_def)
qed

section \<open>The names of a type never grow in number\<close>

text \<open>
  No operation adds to the names that a type has on its stacks and with callers; acquire
  takes one away when the open attempt fails, and otherwise the number stays.
\<close>

lemma kvs_close_handles [simp]: "kvs_database (kvs_close m x) n = kvs_database m n"
  by (simp add: kvs_close_def kvs_database_def split: option.splits)

lemma kvs_open_valid:
  assumes "isValid (kvs_database m name)"
  shows "\<exists>m'. kvs_open openOk m (kvs_database m name) = (openOk name, m') \<and>
              (\<forall>n. kvs_database m' n = kvs_database m n)"
  using assms by (auto simp: kvs_open_def kvs_database_def split: option.splits)

lemma database_loop_acquire_rel:
  assumes "database_loop openOk t s = Some r"
  shows "acquire_rel openOk t s r"
  using assms
proof (induction rule: database_loop.raw_induct[rotated 1, consumes 1])
  case (1 f openOk t s r)
  show ?case
  proof (cases "cachedDatabase s t")
    case (Cons name rest)
    show ?thesis
    proof (cases "isOpen (databaseMap s) (kvs_database (databaseMap s) name)")
      case True
      with 1(2) Cons show ?thesis by (auto simp: acquire_rel_def)
    next
      case False
      let ?s1 = "s\<lparr>cachedDatabase := (cachedDatabase s)(t := rest),
                     availableNames := (availableNames s)(t := stack_push name (availableNames s t))\<rparr>"
      from False 1(2) Cons have "f openOk t ?s1 = Some r" by simp
      from 1(1)[OF this] Cons show ?thesis
        by (auto simp: acquire_rel_def stack_push_def typed_names_def split: prod.splits)
    qed
  next
    case Nil
    show ?thesis
    proof (cases "availableNames s t")
      case Nil2: Nil
      with 1(2) Nil have "f openOk t s = Some r" by simp
      from 1(1)[OF this] show ?thesis .
    next
      case (Cons name rest)
      show ?thesis
      proof (cases "isOpen (databaseMap s) (kvs_database (databaseMap s) name)")
        case True
        with 1(2) Nil Cons show ?thesis by (auto simp: acquire_rel_def)
      next
        case False
        show ?thesis unfolding acquire_rel_def
        proof (intro impI)
          assume ty: "typed_names (databaseMap s) t (cachedDatabase s t @ availableNames s t)"
          from ty Cons have "isValid (kvs_database (databaseMap s) name)" by (simp add: typed_names_def)
          from kvs_open_valid[OF this, of openOk] obtain m' where
            m': "kvs_open openOk (databaseMap s) (kvs_database (databaseMap s) name) = (openOk name, m')"
              "\<forall>n. kvs_database m' n = kvs_database (databaseMap s) n" by auto
          with 1(2) Nil Cons False have "r = (if openOk name then kvs_database (databaseMap s) name else TKvsDatabase_invalid,
              s\<lparr>availableNames := (availableNames s)(t := rest), databaseMap := m'\<rparr>)"
            by (auto split: bool.splits)
          with m'(2) Nil Cons show "case r of (db, s') \<Rightarrow>
         \<exists>name. (db = kvs_database (databaseMap s) name \<or> db = TKvsDatabase_invalid \<and> \<not> openOk name) \<and>
            name \<in> set (cachedDatabase s t @ availableNames s t) \<and>
            mset (cachedDatabase s t) + mset (availableNames s t)
              = add_mset name (mset (cachedDatabase s' t) + mset (availableNames s' t)) \<and>
            (\<forall>u. u \<noteq> t \<longrightarrow> cachedDatabase s' u = cachedDatabase s u \<and> availableNames s' u = availableNames s u) \<and>
            (\<forall>n. kvs_database (databaseMap s') n = kvs_database (databaseMap s) n)"
            by auto
        qed
      qed
    qed
  qed
qed

lemma close_extra_handles:
  "kvs_database (databaseMap (close_extra now t s)) n = kvs_database (databaseMap s) n"
proof (induction now t s rule: close_extra.induct)
  case (1 now t s)
  show ?case
  proof (cases "lastCachedTime s t < word_of_int now - 30")
    case False
    then show ?thesis by (subst close_extra.simps) simp
  next
    case True
    show ?thesis
    proof (cases "cachedDatabase s t")
      case Nil
      with True show ?thesis by (subst close_extra.simps) simp
    next
      case (Cons name rest)
      from 1[OF True, of "(name, rest)" name rest] Cons True show ?thesis
        by (subst close_extra.simps) simp
    qed
  qed
qed

lemma timerEvent_handles:
  assumes "timerEvent a own now s = Inr s'"
  shows "kvs_database (databaseMap s') n = kvs_database (databaseMap s) n"
  using assms by (auto simp: timerEvent_def timer_types_0 close_extra_handles split: if_splits)

lemma typed_names_cong:
  assumes "typed_names m t ns" "set ns' \<subseteq> set ns" "\<forall>n. kvs_database m' n = kvs_database m n"
  shows "typed_names m' t ns'"
  using assms by (auto simp: typed_names_def)

lemma mset_sum_set:
  assumes "mset a + mset b = mset c + mset d"
  shows "set (a @ b) = set (c @ d)"
proof -
  from assms have "mset (a @ b) = mset (c @ d)" by simp
  then show ?thesis by (rule mset_eq_setD)
qed

lemma mset_sum_length:
  assumes "mset a + mset b = mset c + mset d"
  shows "length a + length b = length c + length d"
proof -
  from assms have "size (mset (a @ b)) = size (mset (c @ d))" by simp
  then show ?thesis by simp
qed

lemma filter_remove1_length:
  "x \<in> set xs \<Longrightarrow> P x \<Longrightarrow> length (filter P (remove1 x xs)) + 1 = length (filter P xs)"
  by (induction xs) auto

lemma filter_remove1_other:
  "\<not> P x \<Longrightarrow> filter P (remove1 x xs) = filter P xs"
  by (induction xs) auto

lemma types_differ: "MongoDB \<noteq> Redis"
  by (simp add: MongoDB_def Redis_def)

lemma pool_step_wf_tick:
  assumes "pool_wf (s, held)" "timerEvent a True now s = Inr s'"
  shows "pool_wf (s', held) \<and> total (s', held) MongoDB = total (s, held) MongoDB
         \<and> total (s', held) Redis = total (s, held) Redis"
proof -
  note r = timerEvent_rel[OF assms(2)]
  note h = timerEvent_handles[OF assms(2)]
  have "set (cachedDatabase s' t @ availableNames s' t) = set (cachedDatabase s t @ availableNames s t)" for t
    using r[of t] by (rule mset_sum_set)
  then have "typed_names (databaseMap s') t (cachedDatabase s' t @ availableNames s' t)"
    if "typed_names (databaseMap s) t (cachedDatabase s t @ availableNames s t)" for t
    using that h by (intro typed_names_cong[OF that]) auto
  with assms(1) h have "pool_wf (s', held)"
    by (simp add: pool_wf_def warm_def cold_def)
  moreover have "total (s', held) t = total (s, held) t" for t
    using mset_sum_length[OF r[of t]] by (simp add: total_def warm_def cold_def in_use_def)
  ultimately show ?thesis by simp
qed

lemma pool_step_wf_lost:
  assumes "pool_wf (s, held)"
  shows "pool_wf (s\<lparr>databaseMap := kvs_close (databaseMap s) name\<rparr>, held) \<and>
         total (s\<lparr>databaseMap := kvs_close (databaseMap s) name\<rparr>, held) t = total (s, held) t"
  using assms by (simp add: pool_wf_def typed_names_def warm_def cold_def total_def in_use_def)

lemma pool_step_wf_release:
  assumes "pool_wf (s, held)" "db \<in> set held" "pool now db s = Inr (db', s')"
  shows "pool_wf (s', remove1 db held) \<and> total (s', remove1 db held) MongoDB = total (s, held) MongoDB
         \<and> total (s', remove1 db held) Redis = total (s, held) Redis"
proof -
  from assms(1,2) have v: "isValid db" and e: "db = kvs_database (databaseMap s) (connectionName db)"
    and t: "handle_type db = MongoDB \<or> handle_type db = Redis"
    by (auto simp: pool_wf_def)
  from t have "0 \<le> handle_type db" by (auto simp: MongoDB_def Redis_def)
  with assms(3) v have s': "s' = s\<lparr>cachedDatabase := (cachedDatabase s)(handle_type db := connectionName db # cachedDatabase s (handle_type db)),
                     lastCachedTime := (lastCachedTime s)(handle_type db := word_of_int now)\<rparr>"
    by (simp add: pool_def Let_def handle_type_def stack_push_def)
  have ty: "typed_names (databaseMap s) (handle_type db) [connectionName db]"
    using v e by (simp add: typed_names_def)
  have held: "\<forall>x\<in>set (remove1 db held). isValid x \<and> x = kvs_database (databaseMap s) (connectionName x) \<and>
           (handle_type x = MongoDB \<or> handle_type x = Redis)"
    using assms(1) by (auto simp: pool_wf_def dest: notin_set_remove1)
  have wf: "pool_wf (s', remove1 db held)"
    using t assms(1) ty held types_differ
    by (auto simp: pool_wf_def s' warm_def cold_def typed_names_def)
  have "total (s', remove1 db held) u = total (s, held) u" if "u = MongoDB \<or> u = Redis" for u
  proof (cases "u = handle_type db")
    case True
    with filter_remove1_length[OF assms(2), of "\<lambda>x. handle_type x = u"]
    show ?thesis
      by (simp add: total_def warm_def cold_def in_use_def s' handle_type_def)
  next
    case False
    with filter_remove1_other[of "\<lambda>x. handle_type x = u" db held]
    show ?thesis
      by (simp add: total_def warm_def cold_def in_use_def s' handle_type_def)
  qed
  with wf show ?thesis by simp
qed

lemma pool_step_wf_acquire:
  assumes wf: "pool_wf (s, held)"
    and d: "database a openOk t s = Some (Inr (db, s'))"
    and st': "st' = (s', if isValid db then db # held else held)"
  shows "pool_wf st' \<and>
         total st' MongoDB \<le> total (s, held) MongoDB \<and> total st' Redis \<le> total (s, held) Redis \<and>
         ((\<forall>n. openOk n) \<longrightarrow>
            total st' MongoDB = total (s, held) MongoDB \<and> total st' Redis = total (s, held) Redis)"
proof (cases "isKvsAvailable a t")
  case (Inl e)
  with d show ?thesis by (simp add: database_def)
next
  case (Inr av)
  then have t: "t = MongoDB \<or> t = Redis" by (rule available_type)
  show ?thesis
  proof (cases av)
    case False
    with Inr d wf st' show ?thesis by (auto simp: database_def TKvsDatabase_invalid_def)
  next
    case True
    with Inr d have "database_loop openOk t s = Some (db, s')" by (auto simp: database_def)
    then have "acquire_rel openOk t s (db, s')" by (rule database_loop_acquire_rel)
    moreover from wf t have ty: "typed_names (databaseMap s) t (cachedDatabase s t @ availableNames s t)"
      by (auto simp: pool_wf_def warm_def cold_def)
    ultimately obtain name where
      db: "db = kvs_database (databaseMap s) name \<or> db = TKvsDatabase_invalid \<and> \<not> openOk name" and
      n: "name \<in> set (cachedDatabase s t @ availableNames s t)" and
      m: "mset (cachedDatabase s t) + mset (availableNames s t)
              = add_mset name (mset (cachedDatabase s' t) + mset (availableNames s' t))" and
      o: "\<And>u. u \<noteq> t \<Longrightarrow> cachedDatabase s' u = cachedDatabase s u \<and> availableNames s' u = availableNames s u" and
      h: "\<And>n. kvs_database (databaseMap s') n = kvs_database (databaseMap s) n"
      by (auto simp: acquire_rel_def)
    from m have "mset (cachedDatabase s' t @ availableNames s' t) \<subseteq># mset (cachedDatabase s t @ availableNames s t)"
      by simp
    then have sub: "set (cachedDatabase s' t @ availableNames s' t) \<subseteq> set (cachedDatabase s t @ availableNames s t)"
      by (rule set_mset_mono[of "mset _" "mset _", simplified])
    have ty': "typed_names (databaseMap s') t (cachedDatabase s' t @ availableNames s' t)"
      using ty sub h by (intro typed_names_cong[OF ty]) auto
    have tu: "typed_names (databaseMap s') u (cachedDatabase s' u @ availableNames s' u)"
      if "u \<noteq> t" "typed_names (databaseMap s) u (cachedDatabase s u @ availableNames s u)" for u
      using o[OF that(1)] h by (intro typed_names_cong[OF that(2)]) auto
    have stacks: "typed_names (databaseMap s') MongoDB (cachedDatabase s' MongoDB @ availableNames s' MongoDB) \<and>
        typed_names (databaseMap s') Redis (cachedDatabase s' Redis @ availableNames s' Redis)"
      using t
    proof
      assume "t = MongoDB"
      with ty' tu[of Redis] wf types_differ show ?thesis
        by (auto simp: pool_wf_def warm_def cold_def)
    next
      assume "t = Redis"
      with ty' tu[of MongoDB] wf types_differ show ?thesis
        by (auto simp: pool_wf_def warm_def cold_def)
    qed
    have old: "\<forall>x\<in>set held. isValid x \<and> x = kvs_database (databaseMap s') (connectionName x) \<and>
           (handle_type x = MongoDB \<or> handle_type x = Redis)"
      using wf h by (auto simp: pool_wf_def)
    from m have "size (mset (cachedDatabase s t @ availableNames s t))
       = size (add_mset name (mset (cachedDatabase s' t @ availableNames s' t)))" by simp
    then have len: "length (cachedDatabase s t) + length (availableNames s t)
       = Suc (length (cachedDatabase s' t) + length (availableNames s' t))" by simp
    show ?thesis
    proof (cases "isValid db")
      case v: True
      with db have e: "db = kvs_database (databaseMap s) name" by (auto simp: TKvsDatabase_invalid_def)
      with ty n have ht: "handle_type db = t" by (auto simp: typed_names_def)
      from v st' have s1: "st' = (s', db # held)" by simp
      have "pool_wf (s', db # held)"
        using stacks old v ht t e h by (auto simp: pool_wf_def warm_def cold_def)
      moreover have "total (s', db # held) u = total (s, held) u" for u
      proof (cases "u = t")
        case True
        with len ht show ?thesis
          by (simp add: total_def warm_def cold_def in_use_def)
      next
        case False
        with o[OF False] ht show ?thesis
          by (simp add: total_def warm_def cold_def in_use_def)
      qed
      ultimately show ?thesis by (simp add: s1)
    next
      case nv: False
      with db ty n have f: "\<not> openOk name" by (auto simp: typed_names_def)
      from nv st' have s1: "st' = (s', held)" by simp
      have "pool_wf (s', held)"
        using stacks old by (auto simp: pool_wf_def warm_def cold_def)
      moreover have "total (s', held) u \<le> total (s, held) u" for u
      proof (cases "u = t")
        case True
        with len show ?thesis
          by (simp add: total_def warm_def cold_def in_use_def)
      next
        case False
        with o[OF False] show ?thesis
          by (simp add: total_def warm_def cold_def in_use_def)
      qed
      ultimately show ?thesis using f by (auto simp: s1)
    qed
  qed
qed

lemma pool_step_wf:
  assumes "pool_wf st" and "pool_step a x st = Some st'"
  shows "pool_wf st' \<and> total st' MongoDB \<le> total st MongoDB \<and> total st' Redis \<le> total st Redis \<and>
         (opens_succeed x \<longrightarrow> total st' MongoDB = total st MongoDB \<and> total st' Redis = total st Redis)"
proof -
  obtain s held where st: "st = (s, held)" by (cases st)
  show ?thesis
  proof (cases x)
    case (Acquire t openOk)
    with assms(2) st obtain db s' where
      d: "database a openOk t s = Some (Inr (db, s'))" and st': "st' = (s', if isValid db then db # held else held)"
      by (auto split: option.splits sum.splits)
    from pool_step_wf_acquire[OF assms(1)[unfolded st] d st'] Acquire show ?thesis
      by (simp add: st opens_succeed_def)
  next
    case (Release db now)
    with assms(2) st obtain db' s' where
      h: "db \<in> set held \<or> \<not> isValid db" and p: "pool now db s = Inr (db', s')"
      and st': "st' = (s', remove1 db held)"
      by (auto split: if_splits sum.splits)
    show ?thesis
    proof (cases "db \<in> set held")
      case True
      from pool_step_wf_release[OF assms(1)[unfolded st] True p] show ?thesis by (simp add: st st')
    next
      case False
      with h p have "s' = s" "remove1 db held = held" by (simp_all add: pool_def remove1_idem)
      with assms(1) show ?thesis by (simp add: st st')
    qed
  next
    case (Tick now)
    with assms(2) st obtain s' where
      p: "timerEvent a True now s = Inr s'" and st': "st' = (s', held)"
      by (auto split: sum.splits)
    from pool_step_wf_tick[OF assms(1)[unfolded st] p] show ?thesis by (simp add: st st')
  next
    case (ConnectionLost name)
    with assms(2) st have st': "st' = (s\<lparr>databaseMap := kvs_close (databaseMap s) name\<rparr>, held)" by auto
    from pool_step_wf_lost[OF assms(1)[unfolded st], of name] show ?thesis by (simp add: st st')
  qed
qed

lemma pool_run_wf:
  "pool_wf st \<Longrightarrow> pool_run a xs st = Some st' \<Longrightarrow>
     pool_wf st' \<and> total st' MongoDB \<le> total st MongoDB \<and> total st' Redis \<le> total st Redis \<and>
     ((\<forall>x\<in>set xs. opens_succeed x) \<longrightarrow>
        total st' MongoDB = total st MongoDB \<and> total st' Redis = total st Redis)"
proof (induction xs arbitrary: st)
  case Nil
  then show ?case by simp
next
  case (Cons x xs)
  from Cons.prems(2) obtain st1 where 1: "pool_step a x st = Some st1" and 2: "pool_run a xs st1 = Some st'"
    by (auto split: option.splits)
  from pool_step_wf[OF Cons.prems(1) 1] have wf1: "pool_wf st1" by simp
  from pool_step_wf[OF Cons.prems(1) 1] Cons.IH[OF wf1 2] show ?case by auto
qed

lemma init_names_table:
  assumes "0 \<le> i"
  shows "(\<forall>x. x \<notin> conn_name type ` {i..} \<longrightarrow> fst (init_names a drv type n i (m, stack)) x = m x) \<and>
         (\<forall>x\<in>set (snd (init_names a drv type n i (m, stack))). x \<in> set stack \<or>
            (x \<in> conn_name type ` {i..} \<and>
             fst (init_names a drv type n i (m, stack)) x = Some \<lparr>dataDriver = drv, hasDriver = True, opened = False\<rparr>))"
  using assms
proof (induction a drv type n i "(m, stack)" arbitrary: m stack rule: init_names.induct)
  case (1 a drv type n i m stack)
  show ?case
  proof (cases "i < n")
    case False
    then show ?thesis by (subst (1 2 3) init_names.simps) simp
  next
    case True
    let ?m' = "m(conn_name type i \<mapsto> \<lparr>dataDriver = drv, hasDriver = createDriver a drv, opened = False\<rparr>)"
    show ?thesis
    proof (cases "createDriver a drv")
      case False
      with True show ?thesis
        by (subst (1 2 3) init_names.simps) (auto simp: addDatabase_def Let_def kvs_database_def)
    next
      case d: True
      have e: "init_names a drv type n i (m, stack) = init_names a drv type n (i + 1) (?m', conn_name type i # stack)"
        using True d by (subst init_names.simps) (simp add: addDatabase_def Let_def kvs_database_def stack_push_def)
      have ih: "(\<forall>x. x \<notin> conn_name type ` {i + 1..} \<longrightarrow> fst (init_names a drv type n (i + 1) (?m', conn_name type i # stack)) x = ?m' x) \<and>
         (\<forall>x\<in>set (snd (init_names a drv type n (i + 1) (?m', conn_name type i # stack))). x \<in> set (conn_name type i # stack) \<or>
            (x \<in> conn_name type ` {i + 1..} \<and>
             fst (init_names a drv type n (i + 1) (?m', conn_name type i # stack)) x = Some \<lparr>dataDriver = drv, hasDriver = True, opened = False\<rparr>))"
        using True d 1(2) 1(1)[of "kvs_database ?m' (conn_name type i)" ?m']
        by (simp add: addDatabase_def Let_def kvs_database_def stack_push_def)
      have ni: "conn_name type i \<notin> conn_name type ` {i + 1..}"
      proof
        assume "conn_name type i \<in> conn_name type ` {i + 1..}"
        then obtain x where x: "i + 1 \<le> x" "conn_name type i = conn_name type x" by auto
        with 1(2) have "i = x" by (intro conn_name_inj[of i x type]) auto
        with x(1) show False by simp
      qed
      have sub: "conn_name type ` {i + 1..} \<subseteq> conn_name type ` {i..}" by auto
      show ?thesis unfolding e
      proof (intro conjI allI impI ballI)
        fix x assume "x \<notin> conn_name type ` {i..}"
        then have "x \<notin> conn_name type ` {i + 1..}" "x \<noteq> conn_name type i" using sub by auto
        with ih show "fst (init_names a drv type n (i + 1) (?m', conn_name type i # stack)) x = m x" by simp
      next
        fix x assume x: "x \<in> set (snd (init_names a drv type n (i + 1) (?m', conn_name type i # stack)))"
        with ih have c: "x \<in> set (conn_name type i # stack) \<or>
            (x \<in> conn_name type ` {i + 1..} \<and>
             fst (init_names a drv type n (i + 1) (?m', conn_name type i # stack)) x = Some \<lparr>dataDriver = drv, hasDriver = True, opened = False\<rparr>)"
          by blast
        show "x \<in> set stack \<or>
            (x \<in> conn_name type ` {i..} \<and>
             fst (init_names a drv type n (i + 1) (?m', conn_name type i # stack)) x = Some \<lparr>dataDriver = drv, hasDriver = True, opened = False\<rparr>)"
        proof (cases "x = conn_name type i")
          case True
          with ni ih d have "fst (init_names a drv type n (i + 1) (?m', conn_name type i # stack)) x
              = Some \<lparr>dataDriver = drv, hasDriver = True, opened = False\<rparr>" by simp
          with True show ?thesis by auto
        next
          case False
          with c sub show ?thesis by auto
        qed
      qed
    qed
  qed
qed

lemma instance_pool_eq:
  "instance_pool a lct0 m0 =
     Inr (let n = maxNumberOfThreadsPerAppServer a;
              r0 = (if isMongoDbAvailable a then init_names a ''MONGODB'' MongoDB n 0 (m0, []) else (m0, []));
              r1 = (if isRedisAvailable a then init_names a ''REDIS'' Redis n 0 (fst r0, []) else (fst r0, []))
          in \<lparr>initialised = True, cachedDatabase = (\<lambda>_. []), lastCachedTime = lct0,
              availableNames = (\<lambda>_. [])(MongoDB := snd r0, Redis := snd r1), maxConnects = n,
              timer = (if isMongoDbAvailable a \<or> isRedisAvailable a then Some 10000 else None),
              databaseMap = fst r1\<rparr>)"
  by (cases "isMongoDbAvailable a"; cases "isRedisAvailable a")
     (auto simp: instance_pool_def init_def TKvsDatabasePool_new_def kvsTypeHash_def
        isKvsAvailable_def MongoDB_def Redis_def case_prod_beta Let_def fun_eq_iff)

lemma pool_start_wf:
  assumes "pool_start a lct0 m0 = Some st0"
  shows "pool_wf st0 \<and> warm st0 = (\<lambda>_. []) \<and> snd st0 = []"
proof -
  let ?n = "maxNumberOfThreadsPerAppServer a"
  let ?r0 = "if isMongoDbAvailable a then init_names a ''MONGODB'' MongoDB ?n 0 (m0, []) else (m0, [])"
  let ?r1 = "if isRedisAvailable a then init_names a ''REDIS'' Redis ?n 0 (fst ?r0, []) else (fst ?r0, [])"
  from assms have st0: "snd st0 = []" "cachedDatabase (fst st0) = (\<lambda>_. [])"
    "availableNames (fst st0) = (\<lambda>_. [])(MongoDB := snd ?r0, Redis := snd ?r1)"
    "databaseMap (fst st0) = fst ?r1"
    by (auto simp: pool_start_def instance_pool_eq Let_def)
  have t0: "\<forall>x\<in>set (snd ?r0). x \<in> conn_name MongoDB ` {0..} \<and>
      fst ?r0 x = Some \<lparr>dataDriver = ''MONGODB'', hasDriver = True, opened = False\<rparr>"
    using init_names_table[of 0 MongoDB a "''MONGODB''" ?n m0 "[]"] by auto
  have k1: "\<forall>x. x \<notin> conn_name Redis ` {0..} \<longrightarrow> fst ?r1 x = fst ?r0 x"
    using init_names_table[of 0 Redis a "''REDIS''" ?n "fst ?r0" "[]"] by auto
  have t1: "\<forall>x\<in>set (snd ?r1). fst ?r1 x = Some \<lparr>dataDriver = ''REDIS'', hasDriver = True, opened = False\<rparr>"
    using init_names_table[of 0 Redis a "''REDIS''" ?n "fst ?r0" "[]"] by auto
  have "\<forall>x\<in>set (snd ?r0). fst ?r1 x = Some \<lparr>dataDriver = ''MONGODB'', hasDriver = True, opened = False\<rparr>"
  proof
    fix x assume x: "x \<in> set (snd ?r0)"
    with t0 have "x \<in> conn_name MongoDB ` {0..}" by blast
    then have "x \<notin> conn_name Redis ` {0..}" using conn_name_types by auto
    with k1 t0 x show "fst ?r1 x = Some \<lparr>dataDriver = ''MONGODB'', hasDriver = True, opened = False\<rparr>" by simp
  qed
  then have a0: "typed_names (fst ?r1) MongoDB (snd ?r0)"
    by (auto simp: typed_names_def kvs_database_def handle_type_def kvsTypeHash_value_def kvsTypeHash_def)
  from t1 have a1: "typed_names (fst ?r1) Redis (snd ?r1)"
    by (auto simp: typed_names_def kvs_database_def handle_type_def kvsTypeHash_value_def kvsTypeHash_def)
  from a0 a1 st0 types_differ have "pool_wf st0"
    by (simp add: pool_wf_def warm_def cold_def)
  with st0 show ?thesis by (simp add: warm_def fun_eq_iff)
qed

lemma reachable_wf:
  assumes "pool_start a lct0 m0 = Some st0" and "pool_run a xs st0 = Some st"
  shows "pool_wf st"
  using pool_run_wf[OF _ assms(2)] pool_start_wf[OF assms(1)] by simp

lemma names_conserved_while_opens_succeed:
  assumes "pool_start a lct0 m0 = Some st0" and "pool_run a xs st0 = Some st"
    and "\<forall>x\<in>set xs. opens_succeed x"
    and "t = MongoDB \<or> t = Redis"
  shows "length (warm st t) + length (cold st t) + length (in_use st t) = length (cold st0 t)"
proof -
  from pool_start_wf[OF assms(1)] have wf: "pool_wf st0" and e: "warm st0 = (\<lambda>_. [])" "snd st0 = []"
    by auto
  from pool_run_wf[OF wf assms(2)] assms(3,4) have "total st t = total st0 t" by auto
  with e show ?thesis by (simp add: total_def in_use_def)
qed

lemma capacity_at_start:
  assumes "pool_start a lct0 m0 = Some st0" and "isKvsAvailable a t = Inr True"
    and "map_of kvsTypeHash drv = Some t" and "createDriver a drv"
  shows "int (length (cold st0 t)) = max 0 (maxNumberOfThreadsPerAppServer a)"
proof -
  from instance_pool_shape[of a lct0 m0] assms(1) obtain s where
    s: "st0 = (s, [])"
      "init_stack a (isMongoDbAvailable a) ''MONGODB'' MongoDB (availableNames s MongoDB)"
      "init_stack a (isRedisAvailable a) ''REDIS'' Redis (availableNames s Redis)"
    by (auto simp: pool_start_def)
  from assms(3) have "(drv = ''MONGODB'' \<and> t = MongoDB) \<or> (drv = ''REDIS'' \<and> t = Redis)"
    by (auto simp: kvsTypeHash_def split: if_splits)
  with s assms(2,4) show ?thesis
    by (auto simp: init_stack_def cold_def isKvsAvailable_def MongoDB_def Redis_def)
qed

section \<open>Facts about the thread server\<close>

lemma create_threads_eq:
  "0 \<le> i \<Longrightarrow> create_threads n i stack = rev [nat i..<nat n] @ stack"
proof (induction n i stack rule: create_threads.induct)
  case (1 n i stack)
  show ?case
  proof (cases "i < n")
    case False
    then show ?thesis by (subst create_threads.simps) simp
  next
    case True
    with 1(2) have u: "[nat i..<nat n] = nat i # [nat (i + 1)..<nat n]"
      by (simp add: upt_conv_Cons nat_add_distrib)
    from 1(1)[OF True] 1(2) have "create_threads n (i + 1) (stack_push (nat i) stack)
        = rev [nat (i + 1)..<nat n] @ stack_push (nat i) stack" by simp
    with True u show ?thesis by (subst create_threads.simps) (simp add: stack_push_def)
  qed
qed

lemma incomingConnection_Some:
  assumes "incomingConnection sd s = Some s'"
  shows "\<exists>th rest. threadPool s = th # rest \<and> s' = s\<lparr>threadPool := rest, running := (th, sd) # running s\<rparr>"
  using assms
proof (induction rule: incomingConnection.raw_induct[rotated 1, consumes 1])
  case (1 f sd s s')
  show ?case
  proof (cases "threadPool s")
    case Nil
    with 1(2) have "f sd s = Some s'" by simp
    from 1(1)[OF this] show ?thesis .
  next
    case (Cons th rest)
    with 1(2) show ?thesis by auto
  qed
qed

lemma incomingConnection_empty: "threadPool s = [] \<Longrightarrow> incomingConnection sd s = None"
  using incomingConnection_Some[of sd s] by (cases "incomingConnection sd s") auto

lemma incomingConnection_pop:
  "threadPool s = th # rest \<Longrightarrow>
   incomingConnection sd s = Some (s\<lparr>threadPool := rest, running := (th, sd) # running s\<rparr>)"
  by (subst incomingConnection.simps) simp

lemma remove_thread_length:
  "th \<in> fst ` set r \<Longrightarrow> length (remove_thread th r) + 1 = length r"
  by (induction th r rule: remove_thread.induct) auto

lemma server_step_inv:
  assumes "server_step x s = Some s'"
  shows "maxThreads s' = maxThreads s \<and>
         length (threadPool s') + length (running s') = length (threadPool s) + length (running s)"
proof (cases x)
  case (Incoming sd)
  with assms incomingConnection_Some[of sd s s'] show ?thesis by auto
next
  case (Finished th)
  with assms remove_thread_length[of th "running s"] show ?thesis
    by (auto simp: thread_finished_def stack_push_def split: if_splits)
qed

lemma server_run_inv:
  "server_run xs s = Some s' \<Longrightarrow>
     maxThreads s' = maxThreads s \<and>
     length (threadPool s') + length (running s') = length (threadPool s) + length (running s)"
proof (induction xs arbitrary: s)
  case Nil
  then show ?case by simp
next
  case (Cons x xs)
  then obtain s1 where 1: "server_step x s = Some s1" and 2: "server_run xs s1 = Some s'"
    by (auto split: option.splits)
  from server_step_inv[OF 1] Cons.IH[OF 2] show ?case by simp
qed


section \<open>Facts about the cache store\<close>

lemma mset_fold_remove1: "mset (fold remove1 xs ys) = mset ys - mset xs"
proof (induction xs arbitrary: ys)
  case Nil
  show ?case by simp
next
  case (Cons a xs)
  have "mset ys - {#a#} - mset xs = mset ys - add_mset a (mset xs)"
    by (metis add_mset_add_single diff_diff_add union_commute)
  with Cons show ?case by simp
qed

lemma older_rows_split:
  "mset (older_rows k rs) + mset (drop k (sort_key row_t rs)) = mset rs"
proof -
  have "mset (take k (sort_key row_t rs)) + mset (drop k (sort_key row_t rs)) = mset (sort_key row_t rs)"
    by (metis append_take_drop_id mset_append)
  then show ?thesis by (simp add: older_rows_def)
qed

lemma older_rows_oldest:
  assumes "r \<in> set (older_rows k rs)" "r' \<in> set (drop k (sort_key row_t rs))"
  shows "row_t r \<le> row_t r'"
proof -
  have "sorted (map row_t (take k (sort_key row_t rs)) @ map row_t (drop k (sort_key row_t rs)))"
    by (metis append_take_drop_id map_append sorted_sort_key)
  with assms show ?thesis by (auto simp: sorted_append older_rows_def)
qed

lemma times_0_3_le: "0 \<le> n \<Longrightarrow> 0 \<le> times_0_3 n \<and> times_0_3 n \<le> n"
  unfolding times_0_3_def by (simp only: if_True) presburger

lemma gc_round_rows:
  "\<exists>removed.
     mset (table_rows u) = mset removed + mset (table_rows (gc_round u)) \<and>
     int (length removed) = (3 * int (length (table_rows u))) div 10 \<and>
     (\<forall>r\<in>set removed. \<forall>r'\<in>set (table_rows (gc_round u)). row_t r \<le> row_t r') \<and>
     page_count (gc_round u) = compact_pages u (table_rows (gc_round u)) \<and>
     thresholdFileSize (gc_round u) = thresholdFileSize u \<and>
     page_size (gc_round u) = page_size u \<and> compact_pages (gc_round u) = compact_pages u"
proof (cases "times_0_3 (count_rows u) < 1")
  case True
  moreover have "0 \<le> times_0_3 (count_rows u)" by (simp add: times_0_3_le count_rows_def)
  ultimately have "(3 * int (length (table_rows u))) div 10 = 0"
    by (simp add: times_0_3_def count_rows_def)
  with True show ?thesis
    by (intro exI[of _ "[]"]) (simp add: gc_round_def removeOlder_def vacuum_def)
next
  case False
  let ?k = "nat (times_0_3 (count_rows u))"
  let ?rs = "table_rows u"
  let ?rem = "older_rows ?k ?rs"
  let ?keep = "fold remove1 ?rem ?rs"
  have t: "table_rows (gc_round u) = ?keep"
    using False by (simp add: gc_round_def removeOlder_def vacuum_def)
  have o: "page_count (gc_round u) = compact_pages u (table_rows (gc_round u)) \<and>
     thresholdFileSize (gc_round u) = thresholdFileSize u \<and>
     page_size (gc_round u) = page_size u \<and> compact_pages (gc_round u) = compact_pages u"
    using False by (simp add: gc_round_def removeOlder_def vacuum_def)
  have k: "mset ?keep = mset (drop ?k (sort_key row_t ?rs))"
    using older_rows_split[of ?k ?rs] by (simp add: mset_fold_remove1) (metis add_diff_cancel_left')
  then have sk: "set ?keep = set (drop ?k (sort_key row_t ?rs))" by (rule mset_eq_setD)
  have m: "mset ?rs = mset ?rem + mset ?keep"
    using older_rows_split[of ?k ?rs] k by simp
  have "?k \<le> length ?rs" using times_0_3_le[of "count_rows u"] unfolding count_rows_def by linarith
  then have "length ?rem = ?k" by (simp add: older_rows_def)
  then have l: "int (length ?rem) = (3 * int (length ?rs)) div 10"
    by (simp add: times_0_3_def count_rows_def)
  have "\<forall>r\<in>set ?rem. \<forall>r'\<in>set ?keep. row_t r \<le> row_t r'"
    using older_rows_oldest sk by blast
  with m l o show ?thesis unfolding t by (intro exI[of _ ?rem]) simp
qed

lemma gc_round_threshold: "thresholdFileSize (gc_round u) = thresholdFileSize u"
  using gc_round_rows[of u] by blast

lemma gc_loop_unfold:
  "i < 3 \<Longrightarrow> gc_loop i s =
     (if under_0_8 (dbSize (gc_round s)) (thresholdFileSize s) then gc_round s
      else gc_loop (i + 1) (gc_round s))"
  by (subst gc_loop.simps) (simp add: Let_def gc_round_def[symmetric] gc_round_threshold)

lemma gc_loop_3: "gc_loop 3 s = s"
  by (subst gc_loop.simps) simp

lemma gc_loop_0:
  "gc_loop 0 s =
     (if under_0_8 (dbSize (gc_round s)) (thresholdFileSize s) then gc_round s
      else if under_0_8 (dbSize (gc_round (gc_round s))) (thresholdFileSize s) then gc_round (gc_round s)
      else gc_round (gc_round (gc_round s)))"
  by (simp add: gc_loop_unfold[of 0] gc_loop_unfold[of 1] gc_loop_unfold[of 2] gc_loop_3 gc_round_threshold)


section \<open>The count of names of a type\<close>

text \<open>
  As long as the backend accepts every connection it is asked to open, the names of an
  enabled type whose driver exists are all accounted for: those on the warm stack, those
  on the cold stack and those with callers number the configured capacity.
\<close>

lemma capacity_kept_while_opens_succeed:
  assumes "pool_start a lct0 m0 = Some st0" and "pool_run a xs st0 = Some st"
    and "\<forall>x\<in>set xs. opens_succeed x"
    and "isKvsAvailable a t = Inr True"
    and "map_of kvsTypeHash drv = Some t" and "createDriver a drv"
  shows "int (length (warm st t) + length (cold st t) + length (in_use st t))
           = max 0 (maxNumberOfThreadsPerAppServer a) \<and>
         maxConnects (fst st0) = maxNumberOfThreadsPerAppServer a"
proof -
  from instance_pool_shape[of a lct0 m0] assms(1)
  have "maxConnects (fst st0) = maxNumberOfThreadsPerAppServer a"
    by (auto simp: pool_start_def)
  moreover have "length (warm st t) + length (cold st t) + length (in_use st t) = length (cold st0 t)"
    using assms(1,2,3) available_type[OF assms(4)] by (rule names_conserved_while_opens_succeed)
  ultimately show ?thesis
    using capacity_at_start[OF assms(1,4,5,6)] by simp
qed

text \<open>
  C1, at the input where the code departs from it. One connection is configured for
  Redis, so after \<^verbatim>\<open>instance\<close> the warm stack, the cold stack and the callers hold one name
  between them. A caller acquires while the backend refuses the connection: the call
  returns, and afterwards the warm stack, the cold stack and the callers hold no name at
  all, although the capacity is still one.
\<close>

theorem capacity_lost_after_failed_open:
  "case pool_start ex_app1 (\<lambda>_. 0) Map.empty of
     None \<Rightarrow> False
   | Some st0 \<Rightarrow>
       maxConnects (fst st0) = 1 \<and>
       length (warm st0 Redis) + length (cold st0 Redis) + length (in_use st0 Redis) = 1 \<and>
       (case pool_run ex_app1 [Acquire Redis (\<lambda>_. False)] st0 of
          None \<Rightarrow> False
        | Some st \<Rightarrow>
            maxConnects (fst st) = 1 \<and>
            length (warm st Redis) + length (cold st Redis) + length (in_use st Redis) = 0)"
  by code_simp

section \<open>Names across the stacks and the callers\<close>

text \<open>
  C2. In every state that the pool and its callers reach from \<^verbatim>\<open>instance\<close> by acquiring,
  releasing handles that are held (or invalid), timer ticks and lost connections, no
  connection name occurs twice in the warm stacks, the cold stacks and the handles held
  by callers taken together. So a name is in at most one of these places, and no two
  handles that callers hold at the same time carry the same name.
\<close>

theorem names_in_one_place:
  assumes "pool_start a lct0 m0 = Some st0" and "pool_run a xs st0 = Some st"
  shows "distinct (warm st MongoDB @ cold st MongoDB @ warm st Redis @ cold st Redis
                   @ map connectionName (snd st)) \<and>
         distinct (map connectionName (snd st))"
  using reachable_distinct[OF assms] by (simp add: pool_names_def)

theorem names_in_one_place_witness:
  "case pool_start ex_app (\<lambda>_. 0) Map.empty of
     None \<Rightarrow> False
   | Some st0 \<Rightarrow>
       (case pool_run ex_app
               [Acquire Redis (\<lambda>_. True), Acquire Redis (\<lambda>_. True),
                Release (ex_db ''kvs01_1'') 100, Tick 200, Acquire Redis (\<lambda>_. True)] st0 of
          None \<Rightarrow> False
        | Some st \<Rightarrow>
            warm st Redis = [] \<and> cold st Redis = [] \<and>
            map connectionName (snd st) = [''kvs01_1'', ''kvs01_0''] \<and>
            distinct (warm st MongoDB @ cold st MongoDB @ warm st Redis @ cold st Redis
                      @ map connectionName (snd st)) \<and>
            distinct (map connectionName (snd st)))"
proof -
  have "case pool_start ex_app (\<lambda>_. 0) Map.empty of
     None \<Rightarrow> False
   | Some st0 \<Rightarrow>
       (case pool_run ex_app
               [Acquire Redis (\<lambda>_. True), Acquire Redis (\<lambda>_. True),
                Release (ex_db ''kvs01_1'') 100, Tick 200, Acquire Redis (\<lambda>_. True)] st0 of
          None \<Rightarrow> False
        | Some st \<Rightarrow>
            warm st Redis = [] \<and> cold st Redis = [] \<and>
            map connectionName (snd st) = [''kvs01_1'', ''kvs01_0''])"
    by code_simp
  then obtain st0 st where
    a: "pool_start ex_app (\<lambda>_. 0) Map.empty = Some st0" and
    b: "pool_run ex_app
               [Acquire Redis (\<lambda>_. True), Acquire Redis (\<lambda>_. True),
                Release (ex_db ''kvs01_1'') 100, Tick 200, Acquire Redis (\<lambda>_. True)] st0 = Some st" and
    c: "warm st Redis = [] \<and> cold st Redis = [] \<and>
            map connectionName (snd st) = [''kvs01_1'', ''kvs01_0'']"
    by (auto split: option.splits simp del: pool_run.simps)
  have d: "distinct (warm st MongoDB @ cold st MongoDB @ warm st Redis @ cold st Redis
                   @ map connectionName (snd st)) \<and>
         distinct (map connectionName (snd st))"
    using names_in_one_place[OF a b] .
  show ?thesis
    by (simp only: a b option.case) (use c d in simp)
qed

section \<open>Failure to open\<close>

text \<open>
  C3. Take a reachable state and an acquire call for an enabled type that ends up popping
  the name \<open>name\<close> from the cold stack (every warm entry is broken, so the warm names
  are moved over first) and whose attempt to open that connection fails. The call returns
  the invalid object, which is how \<^verbatim>\<open>database\<close> reports the failure. The name is then in
  neither stack of the type, the caller holds nothing, the stacks of the type hold one
  name less than before, and this does not heal: whatever happens afterwards, the name
  never shows up again in a stack or with a caller, and the names of the type on its
  stacks and with callers stay fewer than before the call.
\<close>

theorem open_failure_loses_name:
  assumes "pool_start a lct0 m0 = Some st0" and "pool_run a xs st0 = Some (s, held)"
    and "isKvsAvailable a t = Inr True"
    and "\<forall>n\<in>set (cachedDatabase s t). \<not> isOpen (databaseMap s) (kvs_database (databaseMap s) n)"
    and "rev (cachedDatabase s t) @ availableNames s t = name # rest"
    and "\<not> isOpen (databaseMap s) (kvs_database (databaseMap s) name)"
    and "\<not> fst (kvs_open openOk (databaseMap s) (kvs_database (databaseMap s) name))"
    and "s' = s\<lparr>cachedDatabase := (cachedDatabase s)(t := []), availableNames := (availableNames s)(t := rest)\<rparr>"
  shows "database a openOk t s = Some (Inr (TKvsDatabase_invalid, s')) \<and>
         \<not> isValid TKvsDatabase_invalid \<and>
         pool_step a (Acquire t openOk) (s, held) = Some (s', held) \<and>
         name \<notin> set (warm (s', held) t) \<and> name \<notin> set (cold (s', held) t) \<and>
         length (warm (s', held) t) + length (cold (s', held) t) + 1
           = length (warm (s, held) t) + length (cold (s, held) t) \<and>
         (\<forall>ys st'. pool_run a ys (s', held) = Some st' \<longrightarrow>
            name \<notin> set (pool_names st') \<and>
            length (warm st' t) + length (cold st' t) + length (in_use st' t)
              < length (warm (s, held) t) + length (cold (s, held) t) + length (in_use (s, held) t))"
proof -
  let ?s1 = "s\<lparr>cachedDatabase := (cachedDatabase s)(t := []),
                availableNames := (availableNames s)(t := rev (cachedDatabase s t) @ availableNames s t)\<rparr>"
  have m: "kvs_open openOk (databaseMap s) (kvs_database (databaseMap s) name) = (False, databaseMap s)"
    using assms(7) by (auto simp: kvs_open_def split: option.splits if_splits)
  have "database_loop openOk t s = database_loop openOk t ?s1"
    using assms(4) by (rule database_loop_all_broken)
  also have "\<dots> = Some (TKvsDatabase_invalid, s')"
    using assms(5,6) m by (subst database_loop.simps) (simp add: assms(8))
  finally have l: "database_loop openOk t s = Some (TKvsDatabase_invalid, s')" .
  then have db: "database a openOk t s = Some (Inr (TKvsDatabase_invalid, s'))"
    using assms(3) by (simp add: database_def)
  have inv: "\<not> isValid TKvsDatabase_invalid" by (simp add: TKvsDatabase_invalid_def)
  from db inv have step: "pool_step a (Acquire t openOk) (s, held) = Some (s', held)" by simp
  have "mset (cachedDatabase s t) + mset (availableNames s t) = mset (rev (cachedDatabase s t) @ availableNames s t)"
    by simp
  also have "\<dots> = add_mset name (mset rest)" using assms(5) by simp
  finally have e: "mset (cachedDatabase s t) + mset (availableNames s t)
      = add_mset name (mset (cachedDatabase s' t) + mset (availableNames s' t))"
    by (simp add: assms(8))
  then have "size (mset (cachedDatabase s t) + mset (availableNames s t))
      = size (add_mset name (mset (cachedDatabase s' t) + mset (availableNames s' t)))" by simp
  then have len: "length (warm (s', held) t) + length (cold (s', held) t) + 1
           = length (warm (s, held) t) + length (cold (s, held) t)"
    by (simp add: warm_def cold_def)
  have pn: "mset (pool_names (s, held)) = add_mset name (mset (pool_names (s', held)))"
    using available_type[OF assms(3)] e by (rule pool_names_drop) (simp add: assms(8))
  have d: "distinct (pool_names (s, held))"
    using assms(1,2) by (rule reachable_distinct)
  have gone: "name \<notin> set (pool_names st')"
    if "pool_run a ys (s', held) = Some st'" for ys st'
    using dropped_name_gone[OF d pn pool_run_names[OF that]] by simp
  from gone[of "[]" "(s', held)"] have "name \<notin> set (pool_names (s', held))" by simp
  then have out: "name \<notin> set (warm (s', held) t) \<and> name \<notin> set (cold (s', held) t)"
    using available_type[OF assms(3)] by (auto simp: pool_names_def)
  have wf: "pool_wf (s, held)" using assms(1,2) by (rule reachable_wf)
  from pool_step_wf[OF wf step] have wf': "pool_wf (s', held)" by simp
  from len have tl: "total (s', held) t < total (s, held) t"
    by (simp add: total_def in_use_def)
  have fewer: "length (warm st' t) + length (cold st' t) + length (in_use st' t)
              < length (warm (s, held) t) + length (cold (s, held) t) + length (in_use (s, held) t)"
    if "pool_run a ys (s', held) = Some st'" for ys st'
  proof -
    from pool_run_wf[OF wf' that] available_type[OF assms(3)]
    have "total st' t \<le> total (s', held) t" by auto
    with tl show ?thesis by (simp add: total_def)
  qed
  from db inv step out len gone fewer show ?thesis by blast
qed

theorem open_failure_loses_name_witness:
  "case pool_start ex_app1 (\<lambda>_. 0) Map.empty of
     None \<Rightarrow> False
   | Some st0 \<Rightarrow>
       (case pool_run ex_app1
               [Acquire Redis (\<lambda>_. True), Release (ex_db ''kvs01_0'') 100,
                ConnectionLost ''kvs01_0''] st0 of
          None \<Rightarrow> False
        | Some (s, held) \<Rightarrow>
            isKvsAvailable ex_app1 Redis = Inr True \<and>
            (\<forall>n\<in>set (cachedDatabase s Redis). \<not> isOpen (databaseMap s) (kvs_database (databaseMap s) n)) \<and>
            rev (cachedDatabase s Redis) @ availableNames s Redis = [''kvs01_0''] \<and>
            \<not> isOpen (databaseMap s) (kvs_database (databaseMap s) ''kvs01_0'') \<and>
            \<not> fst (kvs_open (\<lambda>_. False) (databaseMap s) (kvs_database (databaseMap s) ''kvs01_0'')) \<and>
            database ex_app1 (\<lambda>_. False) Redis s =
              Some (Inr (TKvsDatabase_invalid,
                    s\<lparr>cachedDatabase := (cachedDatabase s)(Redis := []),
                      availableNames := (availableNames s)(Redis := [])\<rparr>)) \<and>
            (case pool_run ex_app1 [Acquire Redis (\<lambda>_. False), Tick 200] (s, held) of
               None \<Rightarrow> False
             | Some st' \<Rightarrow> ''kvs01_0'' \<notin> set (pool_names st') \<and> pool_names st' = []))"
proof -
  have "case pool_start ex_app1 (\<lambda>_. 0) Map.empty of
     None \<Rightarrow> False
   | Some st0 \<Rightarrow>
       (case pool_run ex_app1
               [Acquire Redis (\<lambda>_. True), Release (ex_db ''kvs01_0'') 100,
                ConnectionLost ''kvs01_0''] st0 of
          None \<Rightarrow> False
        | Some (s, held) \<Rightarrow>
            isKvsAvailable ex_app1 Redis = Inr True \<and>
            cachedDatabase s Redis = [''kvs01_0''] \<and> availableNames s Redis = [] \<and>
            \<not> isOpen (databaseMap s) (kvs_database (databaseMap s) ''kvs01_0'') \<and>
            \<not> fst (kvs_open (\<lambda>_. False) (databaseMap s) (kvs_database (databaseMap s) ''kvs01_0'')) \<and>
            (case pool_run ex_app1 [Acquire Redis (\<lambda>_. False), Tick 200] (s, held) of
               None \<Rightarrow> False
             | Some st' \<Rightarrow> pool_names st' = []))"
    by code_simp
  then obtain st0 s held st' where
    a: "pool_start ex_app1 (\<lambda>_. 0) Map.empty = Some st0" and
    b: "pool_run ex_app1 [Acquire Redis (\<lambda>_. True), Release (ex_db ''kvs01_0'') 100,
                ConnectionLost ''kvs01_0''] st0 = Some (s, held)" and
    c: "isKvsAvailable ex_app1 Redis = Inr True" and
    w: "cachedDatabase s Redis = [''kvs01_0'']" "availableNames s Redis = []" and
    o: "\<not> isOpen (databaseMap s) (kvs_database (databaseMap s) ''kvs01_0'')" and
    f: "\<not> fst (kvs_open (\<lambda>_. False) (databaseMap s) (kvs_database (databaseMap s) ''kvs01_0''))" and
    r: "pool_run ex_app1 [Acquire Redis (\<lambda>_. False), Tick 200] (s, held) = Some st'" and
    e: "pool_names st' = []"
    by (auto split: option.splits prod.splits simp del: pool_run.simps)
  have d: "database ex_app1 (\<lambda>_. False) Redis s =
              Some (Inr (TKvsDatabase_invalid,
                    s\<lparr>cachedDatabase := (cachedDatabase s)(Redis := []),
                      availableNames := (availableNames s)(Redis := [])\<rparr>))"
    using open_failure_loses_name[OF a b c _ _ o f refl, of "[]"] w o by simp
  show ?thesis
    by (simp only: a b r option.case prod.case) (use c w o f e d in simp)
qed

section \<open>The reclaim timer\<close>

text \<open>
  C4. When some type is enabled, \<^verbatim>\<open>instance\<close> starts the timer with a period of 10000
  milliseconds, which is 10 of the seconds that the timestamps count. For a clock value
  between 30 and the end of the unsigned 32-bit range, a tick does for each enabled type
  what the specification says: while the warm stack is not empty and the time since the
  last release of the type exceeds 30, it pops a name, closes that connection and pushes
  the name onto the cold stack. The stacks of a disabled type stay as they are.
\<close>

theorem idle_reclaim_tick:
  assumes "30 \<le> now" and "now < 2 ^ 32"
  shows "(isMongoDbAvailable a \<or> isRedisAvailable a \<longrightarrow>
            (\<exists>s0. instance_pool a lct0 m0 = Inr s0 \<and> timer s0 = Some 10000)) \<and>
         timerEvent a True now s =
           Inr ((if isRedisAvailable a then spec_reclaim_idle now Redis else id)
                  ((if isMongoDbAvailable a then spec_reclaim_idle now MongoDB else id) s))"
  using instance_pool_shape[of a lct0 m0]
  by (auto simp: timerEvent_def timer_types_0 close_extra_reclaim[OF assms])

theorem idle_reclaim_tick_witness:
  "(30::int) \<le> 200 \<and> (200::int) < 2 ^ 32 \<and>
   (isMongoDbAvailable ex_app \<or> isRedisAvailable ex_app) \<and>
   (\<exists>s0. instance_pool ex_app (\<lambda>_. 0) Map.empty = Inr s0 \<and> timer s0 = Some 10000) \<and>
   timerEvent ex_app True 200 (ex_pool [''kvs01_1'', ''kvs01_0''] [] ex_table) =
     Inr (ex_pool [] [''kvs01_0'', ''kvs01_1''] [''kvs01_0'' \<mapsto> ex_data False, ''kvs01_1'' \<mapsto> ex_data False]) \<and>
   timerEvent ex_app True 30 (ex_pool [''kvs01_1'', ''kvs01_0''] [] ex_table) =
     Inr (ex_pool [''kvs01_1'', ''kvs01_0''] [] ex_table)"
proof -
  have r: "spec_reclaim_idle 200 Redis (ex_pool [''kvs01_1'', ''kvs01_0''] [] ex_table) =
     ex_pool [] [''kvs01_0'', ''kvs01_1''] [''kvs01_0'' \<mapsto> ex_data False, ''kvs01_1'' \<mapsto> ex_data False]"
    apply (simp add: spec_reclaim_idle_def ex_pool_def ex_table_def)
    apply (simp add: kvs_close_def ex_data_def)
    apply (auto simp: fun_eq_iff)
    done
  have r2: "spec_reclaim_idle 30 Redis (ex_pool [''kvs01_1'', ''kvs01_0''] [] ex_table) =
     ex_pool [''kvs01_1'', ''kvs01_0''] [] ex_table"
    by (simp add: spec_reclaim_idle_def ex_pool_def)
  have a: "isRedisAvailable ex_app" "\<not> isMongoDbAvailable ex_app" by (simp_all add: ex_app_def)
  from idle_reclaim_tick[of 200 ex_app "\<lambda>_. 0" Map.empty "ex_pool [''kvs01_1'', ''kvs01_0''] [] ex_table"]
    idle_reclaim_tick[of 30 ex_app "\<lambda>_. 0" Map.empty "ex_pool [''kvs01_1'', ''kvs01_0''] [] ex_table"]
  show ?thesis by (simp add: a r r2)
qed

section \<open>The worker threads\<close>

text \<open>
  C5. With a thread count that is not negative, the constructor creates exactly that many
  threads and pushes each onto the stack, so all are idle and none runs. A running thread
  that finishes is pushed back onto the stack by the function connected to its
  \<^verbatim>\<open>finished\<close> signal. In every state reached by incoming connections and finishing
  threads, the idle threads on the stack and the running threads together number
  \<^verbatim>\<open>maxThreads\<close>, which never changes; so no more than \<^verbatim>\<open>maxThreads\<close> threads run, and with
  none idle an incoming connection is not handed to a thread.
\<close>

theorem worker_pool_size:
  assumes "s0 = TThreadApplicationServer_new sock mt ms" and "0 \<le> maxThreads s0"
    and "server_run xs s0 = Some s"
  shows "threadPool s0 = rev [0..<nat (maxThreads s0)] \<and>
         int (length (threadPool s0)) = maxThreads s0 \<and> running s0 = [] \<and>
         maxThreads s = maxThreads s0 \<and>
         int (length (threadPool s)) + int (length (running s)) = maxThreads s \<and>
         int (length (running s)) \<le> maxThreads s \<and>
         (\<forall>th\<in>fst ` set (running s).
            \<exists>s'. server_step (Finished th) s = Some s' \<and> threadPool s' = th # threadPool s \<and>
                 length (running s') + 1 = length (running s)) \<and>
         (threadPool s = [] \<longrightarrow> (\<forall>sd. server_step (Incoming sd) s = None))"
proof -
  have p: "threadPool s0 = rev [0..<nat (maxThreads s0)]" and r: "running s0 = []"
    using create_threads_eq[of 0 "maxThreads s0" "[]"]
    by (simp_all add: assms(1) TThreadApplicationServer_new_def Let_def)
  then have l: "int (length (threadPool s0)) = maxThreads s0" using assms(2) by simp
  from server_run_inv[OF assms(3)] l r
  have i: "maxThreads s = maxThreads s0"
    "int (length (threadPool s)) + int (length (running s)) = maxThreads s" by auto
  then have b: "int (length (running s)) \<le> maxThreads s" by linarith
  have f: "\<exists>s'. server_step (Finished th) s = Some s' \<and> threadPool s' = th # threadPool s \<and>
                 length (running s') + 1 = length (running s)" if "th \<in> fst ` set (running s)" for th
    using that remove_thread_length[OF that] by (simp add: thread_finished_def stack_push_def)
  have e: "threadPool s = [] \<longrightarrow> (\<forall>sd. server_step (Incoming sd) s = None)"
    by (simp add: incomingConnection_empty)
  from p l r i b f e show ?thesis by blast
qed

theorem worker_pool_size_witness:
  "0 \<le> maxThreads (TThreadApplicationServer_new 5 2 128) \<and>
   (case server_run [Incoming 10, Incoming 11, Finished 1, Incoming 12] (TThreadApplicationServer_new 5 2 128) of
      None \<Rightarrow> False
    | Some s \<Rightarrow>
        threadPool (TThreadApplicationServer_new 5 2 128) = [1, 0] \<and>
        threadPool s = [] \<and> running s = [(1, 12), (0, 11)] \<and>
        int (length (threadPool s)) + int (length (running s)) = maxThreads s \<and>
        int (length (running s)) \<le> maxThreads s \<and>
        server_step (Incoming 13) s = None \<and>
        (\<exists>s'. server_step (Finished 0) s = Some s' \<and> threadPool s' = 0 # threadPool s))"
proof -
  let ?s0 = "TThreadApplicationServer_new 5 2 128"
  have m: "0 \<le> maxThreads ?s0" by (simp add: TThreadApplicationServer_new_def)
  have "case server_run [Incoming 10, Incoming 11, Finished 1, Incoming 12] ?s0 of
      None \<Rightarrow> False
    | Some s \<Rightarrow> threadPool s = [] \<and> running s = [(1, 12), (0, 11)]"
    by code_simp
  then obtain s where r: "server_run [Incoming 10, Incoming 11, Finished 1, Incoming 12] ?s0 = Some s"
    and v: "threadPool s = []" "running s = [(1, 12), (0, 11)]"
    by (auto split: option.splits simp del: server_run.simps)
  have t: "threadPool ?s0 = [1, 0]" by code_simp
  note w = worker_pool_size[OF refl m r]
  from w v have "server_step (Incoming 13) s = None" by blast
  moreover from w v have "\<exists>s'. server_step (Finished 0) s = Some s' \<and> threadPool s' = 0 # threadPool s"
    by (simp del: server_step.simps) blast
  ultimately show ?thesis
    using m t v w by (simp only: r option.case) simp
qed

section \<open>Acquire from the warm stack\<close>

text \<open>
  C6. An acquire call for an enabled type that finds a name on the warm stack pops it. If
  the connection of that name is open, the call returns its handle at once: whatever the
  backend would answer to an open attempt makes no difference, the connection table is
  untouched, and the stacks are as before but for the popped name. If the connection is
  not open, the name goes onto the cold stack and the call goes on as a call from that
  state.
\<close>

theorem acquire_warm_pop:
  assumes "isKvsAvailable a t = Inr True" and "cachedDatabase s t = name # rest"
  shows "(isOpen (databaseMap s) (kvs_database (databaseMap s) name) \<longrightarrow>
            (\<forall>openOk. database a openOk t s =
               Some (Inr (kvs_database (databaseMap s) name,
                          s\<lparr>cachedDatabase := (cachedDatabase s)(t := rest)\<rparr>)))) \<and>
         (\<not> isOpen (databaseMap s) (kvs_database (databaseMap s) name) \<longrightarrow>
            (\<forall>openOk. database a openOk t s =
               database a openOk t
                 (s\<lparr>cachedDatabase := (cachedDatabase s)(t := rest),
                    availableNames := (availableNames s)(t := name # availableNames s t)\<rparr>)))"
  using assms
  by (auto simp: database_def database_loop_warm_open
      database_loop_warm_broken[of s t name rest])

theorem acquire_warm_pop_witness:
  "isKvsAvailable ex_app Redis = Inr True \<and>
   cachedDatabase (ex_pool [''kvs01_0''] [] [''kvs01_0'' \<mapsto> ex_data True]) Redis = [''kvs01_0''] \<and>
   isOpen [''kvs01_0'' \<mapsto> ex_data True] (kvs_database [''kvs01_0'' \<mapsto> ex_data True] ''kvs01_0'') \<and>
   database ex_app (\<lambda>_. False) Redis (ex_pool [''kvs01_0''] [] [''kvs01_0'' \<mapsto> ex_data True]) =
     Some (Inr (ex_db ''kvs01_0'', ex_pool [] [] [''kvs01_0'' \<mapsto> ex_data True])) \<and>
   cachedDatabase (ex_pool [''kvs01_0''] [] [''kvs01_0'' \<mapsto> ex_data False]) Redis = [''kvs01_0''] \<and>
   \<not> isOpen [''kvs01_0'' \<mapsto> ex_data False] (kvs_database [''kvs01_0'' \<mapsto> ex_data False] ''kvs01_0'') \<and>
   database ex_app (\<lambda>_. True) Redis (ex_pool [''kvs01_0''] [] [''kvs01_0'' \<mapsto> ex_data False]) =
     database ex_app (\<lambda>_. True) Redis (ex_pool [] [''kvs01_0''] [''kvs01_0'' \<mapsto> ex_data False])"
  using acquire_warm_pop[of ex_app Redis "ex_pool [''kvs01_0''] [] [''kvs01_0'' \<mapsto> ex_data True]" "''kvs01_0''" "[]"]
    acquire_warm_pop[of ex_app Redis "ex_pool [''kvs01_0''] [] [''kvs01_0'' \<mapsto> ex_data False]" "''kvs01_0''" "[]"]
  by (simp add: isKvsAvailable_def ex_app_def ex_pool_def ex_data_def ex_db_def isOpen_def
      kvs_database_def MongoDB_def Redis_def)

section \<open>Release\<close>

text \<open>
  C7. Releasing a valid handle whose driver is one of the pool's types pushes the name of
  the connection onto the warm stack of that type, stores the current time (its low 32
  bits, which is the time itself while it fits) as the last-release timestamp of that
  type, and hands the caller the invalid object. Every other part of the pool, the cold
  stacks and the connection table included, stays as it was.
\<close>

theorem release_pushes_warm:
  assumes "isValid db" and "map_of kvsTypeHash (driverName db) = Some t"
  shows "pool now db s = Inr (TKvsDatabase_invalid,
            s\<lparr>cachedDatabase := (cachedDatabase s)(t := connectionName db # cachedDatabase s t),
              lastCachedTime := (lastCachedTime s)(t := word_of_int now)\<rparr>)
         \<and> (0 \<le> now \<and> now < 2 ^ 32 \<longrightarrow> uint (word_of_int now :: 32 word) = now)"
proof -
  from assms(2) have "t = MongoDB \<or> t = Redis"
    by (auto simp: kvsTypeHash_def split: if_splits)
  then have "0 \<le> t" by (auto simp: MongoDB_def Redis_def)
  moreover have "0 \<le> now \<and> now < 2 ^ 32 \<longrightarrow> uint (word_of_int now :: 32 word) = now"
    by (simp add: uint_word_of_int take_bit_int_eq_self)
  ultimately show ?thesis using assms
    by (simp add: pool_def kvsTypeHash_value_def stack_push_def Let_def)
qed

theorem release_pushes_warm_witness:
  "isValid (ex_db ''kvs01_0'') \<and> map_of kvsTypeHash (driverName (ex_db ''kvs01_0'')) = Some Redis \<and>
   pool 100 (ex_db ''kvs01_0'') (ex_pool [''kvs01_1''] [] Map.empty) =
     Inr (TKvsDatabase_invalid,
          (ex_pool [''kvs01_1''] [] Map.empty)
            \<lparr>cachedDatabase := (cachedDatabase (ex_pool [''kvs01_1''] [] Map.empty))
                 (Redis := ''kvs01_0'' # cachedDatabase (ex_pool [''kvs01_1''] [] Map.empty) Redis),
              lastCachedTime := (lastCachedTime (ex_pool [''kvs01_1''] [] Map.empty))(Redis := word_of_int 100)\<rparr>) \<and>
   (0 \<le> (100::int) \<and> (100::int) < 2 ^ 32 \<and> uint (word_of_int 100 :: 32 word) = 100)"
  using release_pushes_warm[of "ex_db ''kvs01_0''" Redis 100 "ex_pool [''kvs01_1''] [] Map.empty"]
  by (simp add: ex_db_def kvsTypeHash_def)

section \<open>Release followed by acquire\<close>

text \<open>
  C8. Let \<open>c\<close> be a handle of an enabled type whose connection is open, as a connection
  in use is. Releasing \<open>c\<close> and acquiring the same type right after returns \<open>c\<close> again;
  the backend is not asked to open anything, and the pool ends as it began but for the
  timestamp. The order is last in, first out: after releasing \<open>c\<close> and then \<open>c2\<close>, the
  next acquire returns \<open>c2\<close> and the one after it returns \<open>c\<close>.
\<close>

theorem release_acquire_same_connection:
  assumes "isKvsAvailable a t = Inr True"
    and "isValid c" and "map_of kvsTypeHash (driverName c) = Some t"
    and "isOpen (databaseMap s) c" and "kvs_database (databaseMap s) (connectionName c) = c"
    and "isValid c2" and "map_of kvsTypeHash (driverName c2) = Some t"
    and "isOpen (databaseMap s) c2" and "kvs_database (databaseMap s) (connectionName c2) = c2"
  shows "(\<exists>s1. pool now c s = Inr (TKvsDatabase_invalid, s1) \<and>
            (\<forall>openOk. database a openOk t s1 =
               Some (Inr (c, s\<lparr>lastCachedTime := (lastCachedTime s)(t := word_of_int now)\<rparr>)))) \<and>
         (\<exists>s1 s2 s3 s4.
            pool now c s = Inr (TKvsDatabase_invalid, s1) \<and>
            pool now2 c2 s1 = Inr (TKvsDatabase_invalid, s2) \<and>
            (\<forall>openOk. database a openOk t s2 = Some (Inr (c2, s3))) \<and>
            (\<forall>openOk. database a openOk t s3 = Some (Inr (c, s4))) \<and>
            cachedDatabase s4 = cachedDatabase s \<and> availableNames s4 = availableNames s \<and>
            databaseMap s4 = databaseMap s)"
proof -
  let ?s1 = "s\<lparr>cachedDatabase := (cachedDatabase s)(t := connectionName c # cachedDatabase s t),
              lastCachedTime := (lastCachedTime s)(t := word_of_int now)\<rparr>"
  let ?s2 = "?s1\<lparr>cachedDatabase := (cachedDatabase ?s1)(t := connectionName c2 # cachedDatabase ?s1 t),
              lastCachedTime := (lastCachedTime ?s1)(t := word_of_int now2)\<rparr>"
  let ?s3 = "?s1\<lparr>lastCachedTime := (lastCachedTime ?s1)(t := word_of_int now2)\<rparr>"
  let ?s4 = "s\<lparr>lastCachedTime := (lastCachedTime s)(t := word_of_int now2)\<rparr>"
  have first: "pool now c s = Inr (TKvsDatabase_invalid, ?s1) \<and>
      database a openOk t ?s1 =
      Some (Inr (c, s\<lparr>lastCachedTime := (lastCachedTime s)(t := word_of_int now)\<rparr>))" for openOk
    by (rule release_then_acquire[OF assms(2,3,1,4,5) refl])
  have o: "isOpen (databaseMap ?s1) c2" "kvs_database (databaseMap ?s1) (connectionName c2) = c2"
    using assms(8,9) by simp_all
  have second: "pool now2 c2 ?s1 = Inr (TKvsDatabase_invalid, ?s2) \<and>
      database a openOk t ?s2 = Some (Inr (c2, ?s3))" for openOk
    by (rule release_then_acquire[OF assms(6,7,1) o refl])
  have "(cachedDatabase s)(t := cachedDatabase s t) = cachedDatabase s" by (auto simp: fun_eq_iff)
  then have "database_loop openOk t ?s3 = Some (c, ?s4)" for openOk
    using assms(4,5) by (subst database_loop.simps) (simp add: isOpen_def)
  then have a3: "database a openOk t ?s3 = Some (Inr (c, ?s4))" for openOk
    using assms(1) by (simp add: database_def)
  have f: "cachedDatabase ?s4 = cachedDatabase s \<and> availableNames ?s4 = availableNames s \<and>
            databaseMap ?s4 = databaseMap s" by simp
  have A: "\<exists>s1. pool now c s = Inr (TKvsDatabase_invalid, s1) \<and>
            (\<forall>openOk. database a openOk t s1 =
               Some (Inr (c, s\<lparr>lastCachedTime := (lastCachedTime s)(t := word_of_int now)\<rparr>)))"
    using first by (intro exI[of _ ?s1]) simp
  have B: "\<exists>s1 s2 s3 s4.
            pool now c s = Inr (TKvsDatabase_invalid, s1) \<and>
            pool now2 c2 s1 = Inr (TKvsDatabase_invalid, s2) \<and>
            (\<forall>openOk. database a openOk t s2 = Some (Inr (c2, s3))) \<and>
            (\<forall>openOk. database a openOk t s3 = Some (Inr (c, s4))) \<and>
            cachedDatabase s4 = cachedDatabase s \<and> availableNames s4 = availableNames s \<and>
            databaseMap s4 = databaseMap s"
    using first second a3 f
    by (intro exI[of _ ?s1] exI[of _ ?s2] exI[of _ ?s3] exI[of _ ?s4] conjI allI) (simp_all only: )
  from A B show ?thesis by (rule conjI)
qed

theorem release_acquire_same_connection_witness:
  "isKvsAvailable ex_app Redis = Inr True \<and>
   isValid (ex_db ''kvs01_0'') \<and> map_of kvsTypeHash (driverName (ex_db ''kvs01_0'')) = Some Redis \<and>
   isOpen (databaseMap (ex_pool [] [] ex_table)) (ex_db ''kvs01_0'') \<and>
   kvs_database (databaseMap (ex_pool [] [] ex_table)) (connectionName (ex_db ''kvs01_0'')) = ex_db ''kvs01_0'' \<and>
   isValid (ex_db ''kvs01_1'') \<and> map_of kvsTypeHash (driverName (ex_db ''kvs01_1'')) = Some Redis \<and>
   isOpen (databaseMap (ex_pool [] [] ex_table)) (ex_db ''kvs01_1'') \<and>
   kvs_database (databaseMap (ex_pool [] [] ex_table)) (connectionName (ex_db ''kvs01_1'')) = ex_db ''kvs01_1'' \<and>
   (\<exists>s1. pool 100 (ex_db ''kvs01_0'') (ex_pool [] [] ex_table) = Inr (TKvsDatabase_invalid, s1) \<and>
         (\<forall>openOk. database ex_app openOk Redis s1 =
            Some (Inr (ex_db ''kvs01_0'',
                       (ex_pool [] [] ex_table)\<lparr>lastCachedTime := (lastCachedTime (ex_pool [] [] ex_table))(Redis := word_of_int 100)\<rparr>)))) \<and>
   (\<exists>s1 s2 s3 s4.
       pool 100 (ex_db ''kvs01_0'') (ex_pool [] [] ex_table) = Inr (TKvsDatabase_invalid, s1) \<and>
       pool 101 (ex_db ''kvs01_1'') s1 = Inr (TKvsDatabase_invalid, s2) \<and>
       (\<forall>openOk. database ex_app openOk Redis s2 = Some (Inr (ex_db ''kvs01_1'', s3))) \<and>
       (\<forall>openOk. database ex_app openOk Redis s3 = Some (Inr (ex_db ''kvs01_0'', s4))) \<and>
       cachedDatabase s4 = cachedDatabase (ex_pool [] [] ex_table) \<and>
       availableNames s4 = availableNames (ex_pool [] [] ex_table) \<and>
       databaseMap s4 = databaseMap (ex_pool [] [] ex_table))"
proof -
  let ?s = "ex_pool [] [] ex_table"
  have h: "isKvsAvailable ex_app Redis = Inr True"
    "isValid (ex_db ''kvs01_0'')" "map_of kvsTypeHash (driverName (ex_db ''kvs01_0'')) = Some Redis"
    "isOpen (databaseMap ?s) (ex_db ''kvs01_0'')"
    "kvs_database (databaseMap ?s) (connectionName (ex_db ''kvs01_0'')) = ex_db ''kvs01_0''"
    "isValid (ex_db ''kvs01_1'')" "map_of kvsTypeHash (driverName (ex_db ''kvs01_1'')) = Some Redis"
    "isOpen (databaseMap ?s) (ex_db ''kvs01_1'')"
    "kvs_database (databaseMap ?s) (connectionName (ex_db ''kvs01_1'')) = ex_db ''kvs01_1''"
    by (simp_all add: isKvsAvailable_def ex_app_def ex_pool_def ex_data_def ex_db_def isOpen_def
      kvs_database_def kvsTypeHash_def MongoDB_def Redis_def ex_table_def)
  note c = release_acquire_same_connection[OF h, of 100 101]
  from h c show ?thesis by (intro conjI) (simp_all only: )
qed

section \<open>Garbage collection of the cache store\<close>

text \<open>
  C9. Let \<open>s1\<close> be the store when \<^verbatim>\<open>gc\<close> looks at its size, which is after the expired rows
  are deleted and the file is compacted. If the threshold is positive and the size of
  \<open>s1\<close> exceeds it, \<^verbatim>\<open>gc\<close> runs the round "delete the oldest three tenths of the rows,
  then compact" at least once and at most three times; it stops after the first round
  that leaves the size under eight tenths of the threshold, and no earlier round did. A
  round removes \<open>\<lfloor>3n/10\<rfloor>\<close> of the \<open>n\<close> rows, none of them younger than a row it keeps.
\<close>

theorem gc_rounds:
  assumes "s1 = vacuum (snd (removeOlderThan now s))"
    and "0 < thresholdFileSize s" and "thresholdFileSize s < dbSize s1"
  shows "(\<exists>n. 1 \<le> n \<and> n \<le> 3 \<and> gc now s = (gc_round ^^ n) s1 \<and>
            (\<forall>j. 1 \<le> j \<and> j < n \<longrightarrow> \<not> under_0_8 (dbSize ((gc_round ^^ j) s1)) (thresholdFileSize s)) \<and>
            (n < 3 \<longrightarrow> under_0_8 (dbSize (gc now s)) (thresholdFileSize s))) \<and>
         (\<forall>u. \<exists>removed.
            mset (table_rows u) = mset removed + mset (table_rows (gc_round u)) \<and>
            int (length removed) = (3 * int (length (table_rows u))) div 10 \<and>
            (\<forall>r\<in>set removed. \<forall>r'\<in>set (table_rows (gc_round u)). row_t r \<le> row_t r') \<and>
            page_count (gc_round u) = compact_pages u (table_rows (gc_round u)))"
proof -
  have th: "thresholdFileSize s1 = thresholdFileSize s"
    by (simp add: assms(1) vacuum_def removeOlderThan_def)
  with assms have g: "gc now s = gc_loop 0 s1"
    by (simp add: gc_def Let_def)
  let ?u = "\<lambda>x. under_0_8 (dbSize x) (thresholdFileSize s)"
  have A: "\<exists>n. 1 \<le> n \<and> n \<le> 3 \<and> gc now s = (gc_round ^^ n) s1 \<and>
            (\<forall>j. 1 \<le> j \<and> j < n \<longrightarrow> \<not> ?u ((gc_round ^^ j) s1)) \<and>
            (n < 3 \<longrightarrow> ?u (gc now s))"
  proof (cases "?u (gc_round s1)")
    case True
    then have "gc now s = gc_round s1" by (simp add: g gc_loop_0 th)
    with True show ?thesis by (intro exI[of _ 1]) simp
  next
    case f1: False
    show ?thesis
    proof (cases "?u (gc_round (gc_round s1))")
      case True
      with f1 have e: "gc now s = gc_round (gc_round s1)" by (simp add: g gc_loop_0 th)
      have "\<not> ?u ((gc_round ^^ j) s1)" if "1 \<le> j \<and> j < 2" for j
      proof -
        from that have "j = 1" by arith
        with f1 show ?thesis by simp
      qed
      with e True show ?thesis by (intro exI[of _ 2]) (simp add: numeral_2_eq_2)
    next
      case f2: False
      with f1 have e: "gc now s = gc_round (gc_round (gc_round s1))" by (simp add: g gc_loop_0 th)
      have "\<not> ?u ((gc_round ^^ j) s1)" if "1 \<le> j \<and> j < 3" for j
      proof -
        from that have "j = 1 \<or> j = 2" by arith
        with f1 f2 show ?thesis by (auto simp: numeral_2_eq_2)
      qed
      with e show ?thesis by (intro exI[of _ 3]) (simp add: numeral_3_eq_3)
    qed
  qed
  have B: "\<forall>u. \<exists>removed.
            mset (table_rows u) = mset removed + mset (table_rows (gc_round u)) \<and>
            int (length removed) = (3 * int (length (table_rows u))) div 10 \<and>
            (\<forall>r\<in>set removed. \<forall>r'\<in>set (table_rows (gc_round u)). row_t r \<le> row_t r') \<and>
            page_count (gc_round u) = compact_pages u (table_rows (gc_round u))"
    using gc_round_rows by blast
  from A B show ?thesis by (rule conjI)
qed

theorem gc_rounds_witness:
  "0 < thresholdFileSize ex_store \<and>
   thresholdFileSize ex_store < dbSize (vacuum (snd (removeOlderThan 0 ex_store))) \<and>
   gc 0 ex_store = (gc_round ^^ 2) (vacuum (snd (removeOlderThan 0 ex_store))) \<and>
   \<not> under_0_8 (dbSize (gc_round (vacuum (snd (removeOlderThan 0 ex_store))))) (thresholdFileSize ex_store) \<and>
   under_0_8 (dbSize (gc 0 ex_store)) (thresholdFileSize ex_store) \<and>
   map row_t (table_rows (gc 0 ex_store)) = [20, 19, 18, 17, 16, 15, 14, 13, 12, 11]"
proof -
  let ?s1 = "vacuum (snd (removeOlderThan 0 ex_store))"
  have h: "0 < thresholdFileSize ex_store" "thresholdFileSize ex_store < dbSize ?s1"
    by code_simp+
  have v: "\<not> under_0_8 (dbSize (gc_round ?s1)) (thresholdFileSize ex_store)"
    "under_0_8 (dbSize (gc_round (gc_round ?s1))) (thresholdFileSize ex_store)"
    "map row_t (table_rows (gc_round (gc_round ?s1))) = [20, 19, 18, 17, 16, 15, 14, 13, 12, 11]"
    by code_simp+
  from gc_rounds[OF refl h] obtain n where n: "1 \<le> n" "n \<le> 3"
    "gc 0 ex_store = (gc_round ^^ n) ?s1"
    "\<forall>j. 1 \<le> j \<and> j < n \<longrightarrow> \<not> under_0_8 (dbSize ((gc_round ^^ j) ?s1)) (thresholdFileSize ex_store)"
    "n < 3 \<longrightarrow> under_0_8 (dbSize (gc 0 ex_store)) (thresholdFileSize ex_store)"
    by blast
  from n(1,2) have "n = 1 \<or> n = 2 \<or> n = 3" by arith
  then have "n = 2"
  proof (elim disjE)
    assume "n = 1"
    with n(3,5) v(1) show ?thesis by simp
  next
    assume "n = 2"
    then show ?thesis .
  next
    assume "n = 3"
    with n(4)[rule_format, of 2] v(2) show ?thesis by (simp add: numeral_2_eq_2)
  qed
  with n(3) have g: "gc 0 ex_store = (gc_round ^^ 2) ?s1" by simp
  then have "gc 0 ex_store = gc_round (gc_round ?s1)" by (simp add: numeral_2_eq_2)
  with g h v show ?thesis by simp
qed

section \<open>Release of an invalid handle\<close>

text \<open>
  C10. When the handle passed to \<^verbatim>\<open>pool\<close> is invalid, the pool is left exactly as it was:
  nothing is pushed onto a stack and no timestamp changes. The handle of the caller is
  set to the invalid object all the same.
\<close>

theorem release_invalid_handle:
  assumes "\<not> isValid db"
  shows "pool now db s = Inr (TKvsDatabase_invalid, s)"
  using assms by (simp add: pool_def)

theorem release_invalid_handle_witness:
  "\<not> isValid TKvsDatabase_invalid \<and>
   pool 100 TKvsDatabase_invalid (ex_pool [] [''kvs01_0''] Map.empty)
     = Inr (TKvsDatabase_invalid, ex_pool [] [''kvs01_0''] Map.empty)"
  using release_invalid_handle[of TKvsDatabase_invalid 100 "ex_pool [] [''kvs01_0''] Map.empty"]
  by (simp add: TKvsDatabase_invalid_def)

end
